theory Spec2Isabelle
  imports Complex_Main "HOL-Library.Word" "HOL-Library.AList"
begin

section \<open>A minimal DHCP responder: option codec, packet builder, lease pool\<close>

text \<open>
  The development follows \<^verbatim>\<open>dhcp_app.py\<close>. Byte strings are lists of 8-bit words, Python
  integers are \<^typ>\<open>int\<close>, the options dictionary is a map from integer codes to byte strings,
  and every exception the source can raise is a value of \<open>error\<close>.
\<close>

type_synonym bytes = "8 word list"

datatype error = StructError | OSError | TypeError | OverflowError

subsection \<open>Option codec\<close>

type_synonym options = "int \<rightharpoonup> bytes"

text \<open>
  The \<^verbatim>\<open>while idx < len(raw)\<close> loop of \<^verbatim>\<open>parse_options\<close>, on the suffix \<^verbatim>\<open>raw[idx:]\<close>.
  The slice \<^verbatim>\<open>raw[idx : idx + length]\<close> is \<open>take\<close>, which like the slice returns fewer bytes
  when the buffer is short.
\<close>

fun parse_options_loop :: "bytes \<Rightarrow> options \<Rightarrow> options" where
  "parse_options_loop [] opts = opts"
| "parse_options_loop (code # rest) opts =
     (if code = 255 then opts
      else if code = 0 then parse_options_loop rest opts
      else (case rest of
              [] \<Rightarrow> opts
            | len # rest' \<Rightarrow>
                parse_options_loop (drop (unat len) rest')
                  (opts(uint code \<mapsto> take (unat len) rest'))))"

definition parse_options :: "bytes \<Rightarrow> options" where
  "parse_options raw = parse_options_loop raw Map.empty"

text \<open>\<^verbatim>\<open>struct.pack("BB", a, b)\<close>: each argument must fit an unsigned byte.\<close>

definition pack_BB :: "int \<Rightarrow> int \<Rightarrow> error + bytes" where
  "pack_BB a b =
     (if 0 \<le> a \<and> a \<le> 255 \<and> 0 \<le> b \<and> b \<le> 255
      then Inr [word_of_int a, word_of_int b] else Inl StructError)"

text \<open>The \<^verbatim>\<open>for code, value in options\<close> loop of \<^verbatim>\<open>build_options\<close>, accumulating \<^verbatim>\<open>parts\<close>.\<close>

fun build_options_loop :: "(int \<times> bytes option) list \<Rightarrow> bytes list \<Rightarrow> error + bytes list" where
  "build_options_loop [] parts = Inr parts"
| "build_options_loop ((code, value) # rest) parts =
     (case value of
        None \<Rightarrow> build_options_loop rest parts
      | Some v \<Rightarrow>
          (case pack_BB code (int (length v)) of
             Inl e \<Rightarrow> Inl e
           | Inr hdr \<Rightarrow> build_options_loop rest (parts @ [hdr @ v])))"

definition build_options :: "(int \<times> bytes option) list \<Rightarrow> error + bytes" where
  "build_options opts =
     (case build_options_loop opts [] of
        Inl e \<Rightarrow> Inl e
      | Inr parts \<Rightarrow> Inr (concat (parts @ [[255]])))"

text \<open>
  The code-to-value entries of an ordered option list, as a dictionary: pairs whose value is absent
  contribute nothing, and a later pair replaces an earlier one with the same code.
\<close>

fun entries_from :: "options \<Rightarrow> (int \<times> bytes option) list \<Rightarrow> options" where
  "entries_from m [] = m"
| "entries_from m ((code, None) # rest) = entries_from m rest"
| "entries_from m ((code, Some v) # rest) = entries_from (m(code \<mapsto> v)) rest"

definition entries_of :: "(int \<times> bytes option) list \<Rightarrow> options" where
  "entries_of l = entries_from Map.empty l"

text \<open>
  A well-formed stretch of an option stream: padding bytes and complete options. \<open>encode_items\<close>
  is its wire form and \<open>accumulated\<close> the mapping its complete options amount to.
\<close>

datatype item = Pad | Opt int bytes

fun wf_item :: "item \<Rightarrow> bool" where
  "wf_item Pad = True"
| "wf_item (Opt code v) = (1 \<le> code \<and> code \<le> 254 \<and> length v \<le> 255)"

fun encode_item :: "item \<Rightarrow> bytes" where
  "encode_item Pad = [0]"
| "encode_item (Opt code v) = [word_of_int code, word_of_nat (length v)] @ v"

definition encode_items :: "item list \<Rightarrow> bytes" where
  "encode_items items = concat (map encode_item items)"

fun accumulate :: "options \<Rightarrow> item list \<Rightarrow> options" where
  "accumulate m [] = m"
| "accumulate m (Pad # rest) = accumulate m rest"
| "accumulate m (Opt code v # rest) = accumulate (m(code \<mapsto> v)) rest"

definition accumulated :: "item list \<Rightarrow> options" where
  "accumulated items = accumulate Map.empty items"

subsection \<open>Packet builder\<close>

text \<open>
  Unsigned big-endian integers, as \<^verbatim>\<open>struct\<close> reads and writes them for the network-order formats
  \<^verbatim>\<open>B\<close>, \<^verbatim>\<open>H\<close> and \<^verbatim>\<open>I\<close>: \<open>be_uint\<close> decodes, \<open>pack_be n\<close> encodes into \<open>n\<close> bytes and
  raises \<^verbatim>\<open>struct.error\<close> when the value does not fit.
\<close>

definition be_uint :: "bytes \<Rightarrow> int" where
  "be_uint bs = foldl (\<lambda>acc b. acc * 256 + uint b) 0 bs"

fun be_bytes :: "nat \<Rightarrow> int \<Rightarrow> bytes" where
  "be_bytes 0 v = []"
| "be_bytes (Suc n) v = be_bytes n (v div 256) @ [word_of_int (v mod 256)]"

definition pack_be :: "nat \<Rightarrow> int \<Rightarrow> error + bytes" where
  "pack_be n v = (if 0 \<le> v \<and> v < 256 ^ n then Inr (be_bytes n v) else Inl StructError)"

text \<open>\<^verbatim>\<open>struct.pack\<close> with format \<^verbatim>\<open>Ns\<close>: the byte string cut or zero-padded to \<open>N\<close> bytes.\<close>

definition pack_s :: "nat \<Rightarrow> bytes \<Rightarrow> bytes" where
  "pack_s n bs = take n bs @ replicate (n - length bs) 0"

text \<open>\<^verbatim>\<open>struct.unpack("!BBBBIHH", b)\<close>: the buffer must hold exactly 12 bytes.\<close>

definition unpack_header :: "bytes \<Rightarrow> error + (int \<times> int \<times> int \<times> int \<times> int \<times> int \<times> int)" where
  "unpack_header b =
     (if length b \<noteq> 12 then Inl StructError
      else Inr (be_uint (take 1 b), be_uint (take 1 (drop 1 b)), be_uint (take 1 (drop 2 b)),
                be_uint (take 1 (drop 3 b)), be_uint (take 4 (drop 4 b)),
                be_uint (take 2 (drop 8 b)), be_uint (take 2 (drop 10 b))))"

text \<open>Sequencing of computations that may raise.\<close>

definition bind_err :: "error + 'a \<Rightarrow> ('a \<Rightarrow> error + 'b) \<Rightarrow> error + 'b" where
  "bind_err r f = (case r of Inl e \<Rightarrow> Inl e | Inr x \<Rightarrow> f x)"

type_synonym ipv4 = "32 word"

text \<open>
  The four bytes of an IPv4 address in network order: what \<^verbatim>\<open>socket.inet_aton\<close> returns for the
  dotted quad of the address, and so for \<^verbatim>\<open>str(yiaddr)\<close> of an \<^verbatim>\<open>IPv4Address\<close>.
\<close>

definition ip_bytes :: "ipv4 \<Rightarrow> bytes" where
  "ip_bytes a = be_bytes 4 (uint a)"

definition BOOTREPLY :: int where "BOOTREPLY = 2"
definition DHCPDISCOVER :: "8 word" where "DHCPDISCOVER = 1"
definition DHCPREQUEST :: "8 word" where "DHCPREQUEST = 3"
definition DHCPDECLINE :: "8 word" where "DHCPDECLINE = 4"
definition DHCPRELEASE :: "8 word" where "DHCPRELEASE = 7"

definition MAGIC_COOKIE :: bytes where
  "MAGIC_COOKIE = [0x63, 0x82, 0x53, 0x63]"

text \<open>
  \<^verbatim>\<open>build_reply\<close>. The argument \<open>server_ip\<close> stands for the outcome of
  \<^verbatim>\<open>socket.inet_aton(server_ip)\<close> on the configured string: \<open>None\<close> when the library raises
  \<^verbatim>\<open>OSError\<close>, otherwise the address it denotes. The header is unpacked first, the two
  \<^verbatim>\<open>inet_aton\<close> calls are evaluated as arguments, and then the fields are packed in order.
\<close>

definition build_reply :: "bytes \<Rightarrow> ipv4 \<Rightarrow> ipv4 option \<Rightarrow> bytes \<Rightarrow> error + bytes" where
  "build_reply request yiaddr server_ip opts =
     bind_err (unpack_header (take 12 request))
       (\<lambda>(op, htype, hlen, hops, xid, secs, flags).
          let ciaddr = take 4 (drop 12 request);
              chaddr = take 16 (drop 28 request);
              sname = replicate 64 0;
              file_field = replicate 128 0
          in case server_ip of
               None \<Rightarrow> Inl OSError
             | Some server \<Rightarrow>
                 bind_err (pack_be 1 BOOTREPLY) (\<lambda>p_op.
                 bind_err (pack_be 1 htype) (\<lambda>p_htype.
                 bind_err (pack_be 1 hlen) (\<lambda>p_hlen.
                 bind_err (pack_be 1 hops) (\<lambda>p_hops.
                 bind_err (pack_be 4 xid) (\<lambda>p_xid.
                 bind_err (pack_be 2 secs) (\<lambda>p_secs.
                 bind_err (pack_be 2 flags) (\<lambda>p_flags.
                   Inr (p_op @ p_htype @ p_hlen @ p_hops @ p_xid @ p_secs @ p_flags
                        @ pack_s 4 ciaddr @ pack_s 4 (ip_bytes yiaddr) @ pack_s 4 (ip_bytes server)
                        @ pack_s 4 [0, 0, 0, 0] @ pack_s 16 chaddr @ pack_s 64 sname
                        @ pack_s 128 file_field @ MAGIC_COOKIE @ opts)))))))))"

subsection \<open>Floats\<close>

text \<open>
  The values of \<^verbatim>\<open>time.time()\<close> are finite doubles; they are kept as the rational numbers
  they denote. An expiry is the result of a float addition and may also be infinite (a sum of a
  finite float and a converted integer is never a NaN).
\<close>

datatype pyfloat = NegInf | Finite rat | PosInf

text \<open>\<^verbatim>\<open>expiry > now\<close> for a float \<open>expiry\<close> and a finite \<open>now\<close>.\<close>

fun float_gt :: "pyfloat \<Rightarrow> rat \<Rightarrow> bool" where
  "float_gt NegInf now = False"
| "float_gt (Finite e) now = (now < e)"
| "float_gt PosInf now = True"

definition pow2 :: "int \<Rightarrow> rat" where
  "pow2 k = (if 0 \<le> k then 2 ^ nat k else 1 / 2 ^ nat (- k))"

text \<open>
  The binary exponent of a positive rational \<open>a\<close>: the \<open>e\<close> with \<open>2\<^sup>e \<le> a < 2\<^sup>e\<^sup>+\<^sup>1\<close>, found by
  halving or doubling; the fuel given below covers the whole range of doubles.
\<close>

fun binary_exponent :: "nat \<Rightarrow> rat \<Rightarrow> int \<Rightarrow> int" where
  "binary_exponent 0 a e = e"
| "binary_exponent (Suc fuel) a e =
     (if 2 \<le> a then binary_exponent fuel (a / 2) (e + 1)
      else if a < 1 then binary_exponent fuel (a * 2) (e - 1)
      else e)"

definition round_half_even :: "rat \<Rightarrow> int" where
  "round_half_even q =
     (let f = \<lfloor>q\<rfloor>; r = q - of_int f
      in if r < 1 / 2 then f else if 1 / 2 < r then f + 1 else if even f then f else f + 1)"

text \<open>
  Rounding of an exact value to the nearest double, ties to even (IEEE 754 binary64: 53
  significant bits, least exponent \<open>-1022\<close> with subnormals below it, overflow to an infinity
  from \<open>2\<^sup>1\<^sup>0\<^sup>2\<^sup>4\<close> on).
\<close>

definition round_double :: "rat \<Rightarrow> pyfloat" where
  "round_double x =
     (let a = \<bar>x\<bar>;
          e = (if a < pow2 (- 1022) then - 1022
               else if pow2 1024 \<le> a then 1024
               else binary_exponent 2048 a 0);
          ulp = pow2 (e - 52);
          r = of_int (round_half_even (a / ulp)) * ulp
      in if pow2 1024 \<le> r then (if 0 < x then PosInf else NegInf)
         else Finite (if 0 \<le> x then r else - r))"

text \<open>
  The conversion of a Python integer to a float, as the addition of a float and an integer
  performs it: correctly rounded, and \<^verbatim>\<open>OverflowError\<close> when the result is out of range.
\<close>

definition float_of_int :: "int \<Rightarrow> error + rat" where
  "float_of_int n =
     (case round_double (of_int n) of
        Finite m \<Rightarrow> Inr m
      | _ \<Rightarrow> Inl OverflowError)"

text \<open>
  \<^verbatim>\<open>now + self.lease_time\<close>: the integer is converted, then the two floats are added and the
  exact sum is rounded; a sum out of range is an infinity, not an error.
\<close>

definition float_add_int :: "rat \<Rightarrow> int \<Rightarrow> error + pyfloat" where
  "float_add_int x n =
     (case float_of_int n of
        Inl e \<Rightarrow> Inl e
      | Inr m \<Rightarrow> Inr (round_double (x + m)))"

subsection \<open>Lease pool\<close>

text \<open>
  Hardware addresses are the colon-separated strings the dispatcher derives. The lease table is
  a Python dictionary, kept as an association list in insertion order with one entry per key;
  storing under a key replaces the entry in place or appends a new one (\<open>AList.update\<close>).

  The clock is a sequence of readings: the \<open>n\<close>-th call of \<^verbatim>\<open>time.time()\<close> returns
  \<open>clock n\<close>. Nothing is assumed of it; the system clock may be set back between two readings.
  A \<open>state\<close> is the \<^verbatim>\<open>LeaseManager\<close> object, whose pool bounds are IPv4 addresses, together
  with \<open>ticks\<close>, the number of readings taken so far.
\<close>

type_synonym mac = string
type_synonym clock = "nat \<Rightarrow> rat"

record LeaseManager =
  pool_start :: ipv4
  pool_end :: ipv4
  lease_time :: int
  leases :: "(mac \<times> ipv4 \<times> pyfloat) list"

record state = LeaseManager +
  ticks :: nat

text \<open>
  What \<^verbatim>\<open>ipaddress.ip_address\<close> returns, and the \<^verbatim>\<open>requested_ip\<close> argument of \<^verbatim>\<open>allocate\<close>
  classified by what the source does with it: \<open>NoRequest\<close> is \<^verbatim>\<open>None\<close> or the empty string
  (both falsy), \<open>Unparsable\<close> a non-empty string on which \<^verbatim>\<open>ip_address\<close> raises
  \<^verbatim>\<open>ValueError\<close>, and \<open>Parsed a\<close> a non-empty string that \<^verbatim>\<open>ip_address\<close> parses to \<open>a\<close>.
\<close>

datatype ip_address = IPv4Address "32 word" | IPv6Address "128 word"

datatype requested = NoRequest | Unparsable | Parsed ip_address

definition time_time :: "clock \<Rightarrow> state \<Rightarrow> rat \<times> state" where
  "time_time clock s = (clock (ticks s), s\<lparr>ticks := Suc (ticks s)\<rparr>)"

text \<open>
  \<^verbatim>\<open>_iter_pool\<close>: the integers from \<^verbatim>\<open>int(pool_start)\<close> to \<^verbatim>\<open>int(pool_end)\<close>, each turned back
  into an address.
\<close>

definition iter_pool :: "state \<Rightarrow> ipv4 list" where
  "iter_pool s = map word_of_nat [unat (pool_start s) ..< Suc (unat (pool_end s))]"

text \<open>\<^verbatim>\<open>_is_available\<close> reads the clock itself, then looks for an entry that blocks the address.\<close>

definition is_available :: "clock \<Rightarrow> state \<Rightarrow> ipv4 \<Rightarrow> bool \<times> state" where
  "is_available clock s ip_addr =
     (let (now, s') = time_time clock s
      in (list_all (\<lambda>(_, lease_ip, expiry). \<not> (lease_ip = ip_addr \<and> float_gt expiry now))
            (leases s'), s'))"

text \<open>
  \<^verbatim>\<open>self.leases[mac] = (ip_addr, now + self.lease_time); return ip_addr\<close>. The sum is
  evaluated first; when it raises, nothing is stored.
\<close>

definition bind_lease :: "mac \<Rightarrow> ipv4 \<Rightarrow> rat \<Rightarrow> state \<Rightarrow> (error + ipv4 option) \<times> state" where
  "bind_lease mac ip_addr now s =
     (case float_add_int now (lease_time s) of
        Inl e \<Rightarrow> (Inl e, s)
      | Inr expiry \<Rightarrow>
          (Inr (Some ip_addr), s\<lparr>leases := AList.update mac (ip_addr, expiry) (leases s)\<rparr>))"

text \<open>The final \<^verbatim>\<open>for ip_addr in self._iter_pool()\<close> loop of \<^verbatim>\<open>allocate\<close>.\<close>

fun scan_pool :: "clock \<Rightarrow> mac \<Rightarrow> rat \<Rightarrow> ipv4 list \<Rightarrow> state \<Rightarrow> (error + ipv4 option) \<times> state" where
  "scan_pool clock mac now [] s = (Inr None, s)"
| "scan_pool clock mac now (ip_addr # rest) s =
     (let (free, s') = is_available clock s ip_addr
      in if free then bind_lease mac ip_addr now s'
         else scan_pool clock mac now rest s')"

definition allocate_scan :: "clock \<Rightarrow> mac \<Rightarrow> rat \<Rightarrow> state \<Rightarrow> (error + ipv4 option) \<times> state" where
  "allocate_scan clock mac now s = scan_pool clock mac now (iter_pool s) s"

text \<open>
  \<^verbatim>\<open>allocate\<close> after the check for an active lease: the requested address, then the scan.
  Comparing the IPv4 pool bounds with an IPv6 address raises \<^verbatim>\<open>TypeError\<close>; neither it nor
  the \<^verbatim>\<open>OverflowError\<close> of the sum is caught by the \<^verbatim>\<open>except ValueError\<close> clause.
\<close>

definition allocate_fresh :: "clock \<Rightarrow> mac \<Rightarrow> rat \<Rightarrow> requested \<Rightarrow> state \<Rightarrow> (error + ipv4 option) \<times> state" where
  "allocate_fresh clock mac now requested_ip s =
     (case requested_ip of
        NoRequest \<Rightarrow> allocate_scan clock mac now s
      | Unparsable \<Rightarrow> allocate_scan clock mac now s
      | Parsed (IPv6Address a) \<Rightarrow> (Inl TypeError, s)
      | Parsed (IPv4Address ip_addr) \<Rightarrow>
          if pool_start s \<le> ip_addr \<and> ip_addr \<le> pool_end s then
            (let (free, s') = is_available clock s ip_addr
             in if free then bind_lease mac ip_addr now s'
                else allocate_scan clock mac now s')
          else allocate_scan clock mac now s)"

definition allocate :: "clock \<Rightarrow> state \<Rightarrow> mac \<Rightarrow> requested \<Rightarrow> (error + ipv4 option) \<times> state" where
  "allocate clock s mac requested_ip =
     (let (now, s') = time_time clock s
      in case map_of (leases s') mac of
           None \<Rightarrow> allocate_fresh clock mac now requested_ip s'
         | Some (ip_addr, expiry) \<Rightarrow>
             if float_gt expiry now then (Inr (Some ip_addr), s')
             else allocate_fresh clock mac now requested_ip s')"

text \<open>The states a lease manager reaches from \<open>s0\<close> by calls of \<^verbatim>\<open>allocate\<close>, whatever they return.\<close>

inductive reachable :: "clock \<Rightarrow> state \<Rightarrow> state \<Rightarrow> bool" for clock :: clock and s0 :: state where
  start: "reachable clock s0 s0"
| call: "reachable clock s0 s \<Longrightarrow> allocate clock s mac requested_ip = (r, s') \<Longrightarrow> reachable clock s0 s'"

text \<open>
  The hardware addresses holding an active lease on \<open>ip_addr\<close> at time \<open>t\<close>: the keys of the
  entries with that address whose expiry is strictly later than \<open>t\<close>.
\<close>

definition active_holders :: "(mac \<times> ipv4 \<times> pyfloat) list \<Rightarrow> rat \<Rightarrow> ipv4 \<Rightarrow> mac list" where
  "active_holders ls t ip_addr =
     map fst (filter (\<lambda>(_, lease_ip, expiry). lease_ip = ip_addr \<and> float_gt expiry t) ls)"

text \<open>One call of \<^verbatim>\<open>allocate\<close> without a requested address for each hardware address, in order.\<close>

fun allocate_all :: "clock \<Rightarrow> state \<Rightarrow> mac list \<Rightarrow> (error + ipv4 option) list \<times> state" where
  "allocate_all clock s [] = ([], s)"
| "allocate_all clock s (mac # macs) =
     (let (r, s') = allocate clock s mac NoRequest;
          (rs, s'') = allocate_all clock s' macs
      in (r # rs, s''))"

text \<open>
  The pool as the claims describe it: its size, its addresses counted up from \<open>pool_start\<close>,
  and the number of the clock reading at which the \<open>i\<close>-th of successive calls by new hardware
  addresses starts when the pool fills up from the bottom (such a call reads the clock once
  itself and once for each of the \<open>i + 1\<close> addresses it tries).
\<close>

definition pool_size :: "state \<Rightarrow> nat" where
  "pool_size s = Suc (unat (pool_end s)) - unat (pool_start s)"

definition pool_address :: "state \<Rightarrow> nat \<Rightarrow> ipv4" where
  "pool_address s i = pool_start s + word_of_nat i"

definition call_start :: "state \<Rightarrow> nat \<Rightarrow> nat" where
  "call_start s i = ticks s + (\<Sum>k<i. k + 2)"

subsection \<open>Message dispatcher\<close>

text \<open>\<^verbatim>\<open>_mac_to_str\<close>: two lower-case hexadecimal digits per byte, joined by colons.\<close>

definition hex_digit :: "nat \<Rightarrow> char" where
  "hex_digit n = ''0123456789abcdef'' ! (n mod 16)"

definition hex2 :: "8 word \<Rightarrow> string" where
  "hex2 b = [hex_digit (unat b div 16), hex_digit (unat b mod 16)]"

fun join_colon :: "string list \<Rightarrow> string" where
  "join_colon [] = []"
| "join_colon [x] = x"
| "join_colon (x # y # rest) = x @ '':'' @ join_colon (y # rest)"

definition mac_to_str :: "bytes \<Rightarrow> string" where
  "mac_to_str mac_bytes = join_colon (map hex2 mac_bytes)"

text \<open>
  The configuration the loop uses: \<open>server_ip\<close> is again the outcome of
  \<^verbatim>\<open>socket.inet_aton(server_ip)\<close>; the other three were converted to bytes at startup.
\<close>

record config =
  server_ip :: "ipv4 option"
  subnet_mask :: bytes
  router :: bytes
  dns :: bytes

text \<open>The list handed to \<^verbatim>\<open>build_options\<close> for a reply of the given message type.\<close>

definition reply_options :: "config \<Rightarrow> int \<Rightarrow> 8 word \<Rightarrow> error + bytes" where
  "reply_options cfg lease_secs msg =
     (case server_ip cfg of
        None \<Rightarrow> Inl OSError
      | Some server \<Rightarrow>
          bind_err (pack_be 4 lease_secs) (\<lambda>secs.
            build_options [(53, Some [msg]), (54, Some (ip_bytes server)), (51, Some secs),
                           (1, Some (subnet_mask cfg)), (3, Some (router cfg)), (6, Some (dns cfg))]))"

text \<open>
  \<^verbatim>\<open>socket.inet_ntoa(requested) if requested else None\<close>, followed by what \<^verbatim>\<open>allocate\<close> will
  make of the string: \<^verbatim>\<open>inet_ntoa\<close> raises \<^verbatim>\<open>OSError\<close> unless it is given exactly four bytes,
  and the dotted quad it returns parses back to the address with those bytes.
\<close>

definition requested_of_option :: "bytes option \<Rightarrow> error + requested" where
  "requested_of_option requested =
     (case requested of
        None \<Rightarrow> Inr NoRequest
      | Some bs \<Rightarrow>
          if bs = [] then Inr NoRequest
          else if length bs \<noteq> 4 then Inl OSError
          else Inr (Parsed (IPv4Address (word_of_int (be_uint bs)))))"

text \<open>
  The allocation and reply shared by the DISCOVER and REQUEST branches. The result is the
  datagram broadcast, \<open>None\<close> when nothing is sent.
\<close>

definition offer :: "clock \<Rightarrow> config \<Rightarrow> state \<Rightarrow> bytes \<Rightarrow> mac \<Rightarrow> requested \<Rightarrow> 8 word \<Rightarrow> (error + bytes option) \<times> state" where
  "offer clock cfg s data mac requested_ip msg =
     (case allocate clock s mac requested_ip of
        (Inl e, s') \<Rightarrow> (Inl e, s')
      | (Inr None, s') \<Rightarrow> (Inr None, s')
      | (Inr (Some yiaddr), s') \<Rightarrow>
          (bind_err (reply_options cfg (lease_time s') msg) (\<lambda>opts.
             bind_err (build_reply data yiaddr (server_ip cfg) opts) (\<lambda>reply.
               Inr (Some reply))), s'))"

text \<open>The body of the \<^verbatim>\<open>while True\<close> loop of \<^verbatim>\<open>main\<close> for one received datagram.\<close>

definition handle_datagram :: "clock \<Rightarrow> config \<Rightarrow> state \<Rightarrow> bytes \<Rightarrow> (error + bytes option) \<times> state" where
  "handle_datagram clock cfg s data =
     (if length data < 240 \<or> take 4 (drop 236 data) \<noteq> MAGIC_COOKIE then (Inr None, s)
      else
        let opts = parse_options (drop 240 data);
            msg_type = (case opts 53 of None \<Rightarrow> [0] | Some v \<Rightarrow> v)
        in if msg_type = [] then (Inr None, s)
           else
             let chaddr = take 16 (drop 28 data);
                 hlen = data ! 2;
                 mac = mac_to_str (take (unat hlen) chaddr)
             in if msg_type = [DHCPDISCOVER] then offer clock cfg s data mac NoRequest 2
                else if msg_type = [DHCPREQUEST] then
                  (case requested_of_option (opts 50) of
                     Inl e \<Rightarrow> (Inl e, s)
                   | Inr requested_ip \<Rightarrow> offer clock cfg s data mac requested_ip 5)
                else (Inr None, s))"

subsection \<open>A sample configuration\<close>

text \<open>
  The pool 10.0.0.10 to 10.0.0.12 with a lease duration of 60 seconds; a clock that advances by
  one second per reading, one that advances by fifty, and one that reads 60 once and is then set
  back to 0; the pool after one and after two allocations; the same pool with a lease duration
  no float can hold; a 44-byte request with transaction id 12345678 (hexadecimal); and a REQUEST
  datagram whose option 50 carries three bytes.
\<close>

definition example_clock :: clock where
  "example_clock n = of_nat n"

definition fast_clock :: clock where
  "fast_clock n = 50 * of_nat n"

definition stepping_back_clock :: clock where
  "stepping_back_clock n = (if n = 3 then 60 else 0)"

definition example_pool :: state where
  "example_pool =
     \<lparr>pool_start = 0x0A00000A, pool_end = 0x0A00000C, lease_time = 60, leases = [], ticks = 0\<rparr>"

definition example_one :: state where
  "example_one =
     \<lparr>pool_start = 0x0A00000A, pool_end = 0x0A00000C, lease_time = 60,
      leases = [(''aa'', 0x0A00000A, Finite 60)], ticks = 2\<rparr>"

definition example_reused :: state where
  "example_reused =
     \<lparr>pool_start = 0x0A00000A, pool_end = 0x0A00000C, lease_time = 60,
      leases = [(''aa'', 0x0A00000A, Finite 60), (''bb'', 0x0A00000A, Finite 160)], ticks = 4\<rparr>"

definition example_clash :: state where
  "example_clash =
     \<lparr>pool_start = 0x0A00000A, pool_end = 0x0A00000C, lease_time = 60,
      leases = [(''aa'', 0x0A00000A, Finite 60), (''bb'', 0x0A00000A, Finite 60)], ticks = 4\<rparr>"

definition endless_pool :: state where
  "endless_pool =
     \<lparr>pool_start = 0x0A00000A, pool_end = 0x0A00000C, lease_time = 2 ^ 1024, leases = [],
      ticks = 0\<rparr>"

definition example_request :: bytes where
  "example_request = [1, 1, 6, 0, 0x12, 0x34, 0x56, 0x78] @ replicate 36 0"

definition short_option50_datagram :: bytes where
  "short_option50_datagram =
     replicate 236 0 @ [0x63, 0x82, 0x53, 0x63] @ [53, 1, 3, 50, 3, 10, 0, 0, 255]"

section \<open>The option codec\<close>

lemma uint_code: "1 \<le> c \<Longrightarrow> c \<le> 254 \<Longrightarrow> uint (word_of_int c :: 8 word) = c"
  by (simp add: uint_word_of_int)

lemma code_not_pad: "1 \<le> c \<Longrightarrow> c \<le> 254 \<Longrightarrow> (word_of_int c :: 8 word) \<noteq> 0"
  using uint_code [of c] by auto

lemma code_not_end: "1 \<le> c \<Longrightarrow> c \<le> 254 \<Longrightarrow> (word_of_int c :: 8 word) \<noteq> 255"
  using uint_code [of c] by auto

lemma unat_len: "n \<le> 255 \<Longrightarrow> unat (word_of_nat n :: 8 word) = n"
  by (simp add: unat_of_nat)

text \<open>One complete option at the head of the buffer is consumed whole and recorded.\<close>

lemma parse_complete_option:
  assumes "1 \<le> c" "c \<le> 254" "length v \<le> 255"
  shows "parse_options_loop ([word_of_int c, word_of_nat (length v)] @ v @ rest) m =
         parse_options_loop rest (m(c \<mapsto> v))"
  using assms by (simp add: uint_code code_not_pad code_not_end unat_len)

lemma parse_encode_items:
  "list_all wf_item items \<Longrightarrow>
   parse_options_loop (encode_items items @ rest) m = parse_options_loop rest (accumulate m items)"
proof (induction items arbitrary: m)
  case Nil
  then show ?case by (simp add: encode_items_def)
next
  case (Cons it items)
  show ?case
  proof (cases it)
    case Pad
    with Cons show ?thesis by (simp add: encode_items_def)
  next
    case (Opt c v)
    with Cons.prems have wf: "1 \<le> c" "c \<le> 254" "length v \<le> 255" by simp_all
    have "parse_options_loop (encode_items (it # items) @ rest) m =
          parse_options_loop ([word_of_int c, word_of_nat (length v)] @ v @ (encode_items items @ rest)) m"
      by (simp add: encode_items_def Opt)
    also have "\<dots> = parse_options_loop (encode_items items @ rest) (m(c \<mapsto> v))"
      using wf by (rule parse_complete_option)
    also have "\<dots> = parse_options_loop rest (accumulate (m(c \<mapsto> v)) items)"
      using Cons.prems by (intro Cons.IH) simp
    finally show ?thesis by (simp add: Opt)
  qed
qed

text \<open>
  The loop of \<^verbatim>\<open>build_options\<close> succeeds on a list whose codes are neither padding nor
  terminator and whose values fit the length byte, and parsing the parts it adds replays the list.
\<close>

lemma build_options_loop_parse:
  "\<forall>(c, v) \<in> set l. 1 \<le> c \<and> c \<le> 254 \<and> (\<forall>b. v = Some b \<longrightarrow> length b \<le> 255) \<Longrightarrow>
   \<exists>parts'. build_options_loop l parts = Inr (parts @ parts') \<and>
     (\<forall>rest m. parse_options_loop (concat parts' @ rest) m = parse_options_loop rest (entries_from m l))"
proof (induction l arbitrary: parts)
  case Nil
  then show ?case by simp
next
  case (Cons p l)
  obtain c v where p: "p = (c, v)" by (cases p)
  from Cons.prems
  have tl: "\<forall>(c, v) \<in> set l. 1 \<le> c \<and> c \<le> 254 \<and> (\<forall>b. v = Some b \<longrightarrow> length b \<le> 255)"
    by simp
  show ?case
  proof (cases v)
    case None
    with Cons.IH [OF tl, of parts] p show ?thesis by simp
  next
    case (Some b)
    with Cons.prems p have wf: "1 \<le> c" "c \<le> 254" "length b \<le> 255" by simp_all
    let ?hdr = "[word_of_int c, word_of_int (int (length b))] :: bytes"
    from wf have pk: "pack_BB c (int (length b)) = Inr ?hdr"
      by (simp add: pack_BB_def)
    from Cons.IH [OF tl, of "parts @ [?hdr @ b]"]
    obtain parts' where
      step: "build_options_loop l (parts @ [?hdr @ b]) = Inr ((parts @ [?hdr @ b]) @ parts')" and
      parse: "\<And>rest m. parse_options_loop (concat parts' @ rest) m =
                parse_options_loop rest (entries_from m l)"
      by blast
    have "build_options_loop (p # l) parts = Inr (parts @ ((?hdr @ b) # parts'))"
      using step pk by (simp add: p Some)
    moreover have "parse_options_loop (concat ((?hdr @ b) # parts') @ rest) m =
                   parse_options_loop rest (entries_from m (p # l))" for rest m
    proof -
      have "parse_options_loop (concat ((?hdr @ b) # parts') @ rest) m =
            parse_options_loop
              ([word_of_int c, word_of_nat (length b)] @ b @ (concat parts' @ rest)) m"
        by simp
      also have "\<dots> = parse_options_loop (concat parts' @ rest) (m(c \<mapsto> b))"
        using wf by (rule parse_complete_option)
      finally show ?thesis by (simp add: parse p Some)
    qed
    ultimately show ?thesis by blast
  qed
qed

text \<open>
  C5, as stated, fails: the claim excludes only the terminator code. A pair with code 0 is
  written like any other, but parsed as a padding byte, after which its length byte is taken for
  a code; and a value longer than 255 bytes makes \<^verbatim>\<open>struct.pack\<close> raise, so nothing is built.
\<close>

theorem roundtrip_pad_code_counterexample:
  "build_options [(0, Some [0x35])] = Inr [0, 1, 0x35, 255] \<and>
   parse_options [0, 1, 0x35, 255] = [1 \<mapsto> [255]] \<and>
   entries_of [(0, Some [0x35])] = [0 \<mapsto> [0x35]] \<and>
   [1 \<mapsto> [255]] \<noteq> ([0 \<mapsto> [0x35]] :: options) \<and>
   build_options [(53, Some (replicate 256 0))] = Inl StructError"
proof (intro conjI)
  show "build_options [(0, Some [0x35])] = Inr [0, 1, 0x35, 255]"
    by (simp add: build_options_def pack_BB_def)
  show "parse_options [0, 1, 0x35, 255] = [1 \<mapsto> [255]]"
    by (simp add: parse_options_def)
  show "entries_of [(0, Some [0x35])] = [0 \<mapsto> [0x35]]"
    by (simp add: entries_of_def)
  show "[1 \<mapsto> [255]] \<noteq> ([0 \<mapsto> [0x35]] :: options)"
    by (metis fun_upd_same fun_upd_other option.distinct(1) zero_neq_one)
  show "build_options [(53, Some (replicate 256 0))] = Inl StructError"
    by (simp add: build_options_def pack_BB_def)
qed

text \<open>
  C5, amended: for every ordered option list whose codes lie in 1..254 (neither padding nor
  terminator) and whose present values are at most 255 bytes long, building succeeds, and parsing
  the bytes built yields exactly the code-to-value entries of the list: pairs without a value
  contribute nothing, a repeated code keeps its last value, and the terminator adds no entry.
\<close>

theorem build_parse_roundtrip:
  assumes "\<forall>(c, v) \<in> set l. 1 \<le> c \<and> c \<le> 254 \<and> (\<forall>b. v = Some b \<longrightarrow> length b \<le> 255)"
  shows "\<exists>raw. build_options l = Inr raw \<and> parse_options raw = entries_of l"
proof -
  from build_options_loop_parse [OF assms, of "[]"]
  obtain parts' where b: "build_options_loop l [] = Inr parts'"
    and p: "\<And>rest m. parse_options_loop (concat parts' @ rest) m =
              parse_options_loop rest (entries_from m l)"
    by auto
  have "build_options l = Inr (concat parts' @ [255])"
    by (simp add: build_options_def b)
  moreover have "parse_options (concat parts' @ [255]) = entries_of l"
    by (simp add: parse_options_def entries_of_def p)
  ultimately show ?thesis by blast
qed

theorem build_parse_roundtrip_witness:
  "list_all (\<lambda>(c, v). 1 \<le> c \<and> c \<le> (254 :: int) \<and> (case v of None \<Rightarrow> True | Some b \<Rightarrow> length b \<le> 255))
     [(53, Some [2]), (54, None), (51, Some [0, 0, 0, 60]), (53, Some [5 :: 8 word])] \<and>
   (\<exists>raw. build_options [(53, Some [2]), (54, None), (51, Some [0, 0, 0, 60]), (53, Some [5])] = Inr raw \<and>
      parse_options raw = entries_of [(53, Some [2]), (54, None), (51, Some [0, 0, 0, 60]), (53, Some [5])])"
  using build_parse_roundtrip [of "[(53, Some [2]), (54, None), (51, Some [0, 0, 0, 60]), (53, Some [5])]"]
  by simp

text \<open>
  C8, as stated, fails where the value bytes are cut short: the slice holds the bytes that are
  there, and the option is recorded with that shorter value.
\<close>

theorem truncated_value_counterexample:
  "parse_options (encode_items [] @ [53, 4] @ [1]) = [53 \<mapsto> [1]] \<and>
   accumulated [] = Map.empty \<and>
   parse_options (encode_items [] @ [53, 4] @ [1]) 53 \<noteq> accumulated [] 53"
  by (simp add: parse_options_def encode_items_def accumulated_def)

text \<open>
  C8, amended: parsing never signals an error. After a well-formed stretch of padding and
  complete options, a buffer that ends right after an option code (no length byte) parses to
  exactly the mapping accumulated from the complete options; a buffer that ends before all the
  declared value bytes parses to that mapping with one more entry, the cut option bound to the
  value bytes that are present.
\<close>

theorem parse_truncated:
  assumes "list_all wf_item items" and "1 \<le> c" and "c \<le> 254"
  shows "parse_options (encode_items items @ [word_of_int c]) = accumulated items \<and>
         (length vs < unat len \<longrightarrow>
            parse_options (encode_items items @ [word_of_int c, len] @ vs) =
            (accumulated items)(c \<mapsto> vs))"
  using assms
  by (simp add: parse_options_def accumulated_def parse_encode_items
      uint_code code_not_pad code_not_end)

theorem parse_truncated_witness:
  "list_all wf_item [Pad, Opt 53 [3]] \<and> (1 :: int) \<le> 50 \<and> (50 :: int) \<le> 254 \<and>
   parse_options (encode_items [Pad, Opt 53 [3]] @ [word_of_int 50]) = accumulated [Pad, Opt 53 [3]] \<and>
   length [10 :: 8 word, 0] < unat (4 :: 8 word) \<and>
   parse_options (encode_items [Pad, Opt 53 [3]] @ [word_of_int 50, 4] @ [10, 0]) =
     (accumulated [Pad, Opt 53 [3]])(50 \<mapsto> [10, 0])"
  using parse_truncated [of "[Pad, Opt 53 [3]]" 50 "[10, 0]" 4]
  by simp

section \<open>The packet builder\<close>

lemma be_uint_snoc: "be_uint (bs @ [b]) = be_uint bs * 256 + uint b"
  by (simp add: be_uint_def)

lemma uint_byte: "0 \<le> uint (b :: 8 word) \<and> uint b < 256"
  using uint_bounded [of b] by simp

lemma be_uint_range: "0 \<le> be_uint bs \<and> be_uint bs < 256 ^ length bs"
proof (induction bs rule: rev_induct)
  case Nil
  show ?case by (simp add: be_uint_def)
next
  case (snoc b bs)
  have "be_uint bs + 1 \<le> 256 ^ length bs" using snoc by simp
  then have "(be_uint bs + 1) * 256 \<le> 256 ^ length bs * 256" by (rule mult_right_mono) simp
  with snoc uint_byte [of b] show ?case
    by (simp add: be_uint_snoc algebra_simps)
qed

lemma be_bytes_be_uint: "be_bytes (length bs) (be_uint bs) = bs"
proof (induction bs rule: rev_induct)
  case Nil
  show ?case by simp
next
  case (snoc b bs)
  have d: "(be_uint bs * 256 + uint b) div 256 = be_uint bs"
    using uint_byte [of b] by simp
  have m: "(be_uint bs * 256 + uint b) mod 256 = uint b"
    using uint_byte [of b] by simp
  have "be_bytes (Suc (length bs)) (be_uint bs * 256 + uint b) =
        be_bytes (length bs) (be_uint bs) @ [word_of_int (uint b)]"
    by (simp only: be_bytes.simps d m)
  with snoc show ?case by (simp add: be_uint_snoc)
qed

lemma pack_be_be_uint: "length bs = n \<Longrightarrow> pack_be n (be_uint bs) = Inr bs"
  using be_uint_range [of bs] be_bytes_be_uint [of bs] by (auto simp: pack_be_def)

lemma length_be_bytes: "length (be_bytes n v) = n"
  by (induction n arbitrary: v) simp_all

lemma be_uint_be_bytes: "0 \<le> v \<Longrightarrow> v < 256 ^ n \<Longrightarrow> be_uint (be_bytes n v) = v"
proof (induction n arbitrary: v)
  case 0
  then show ?case by (simp add: be_uint_def)
next
  case (Suc n)
  have "v div 256 < 256 ^ n" using Suc.prems by (simp add: div_less_iff_less_mult  mult.commute)
  moreover have "0 \<le> v div 256" using Suc.prems by simp
  ultimately have "be_uint (be_bytes n (v div 256)) = v div 256" by (rule Suc.IH[rotated])
  moreover have "uint (word_of_int (v mod 256) :: 8 word) = v mod 256"
    by (simp add: uint_word_of_int)
  ultimately show ?case by (simp add: be_uint_snoc)
qed

lemma pack_s_exact: "length bs = n \<Longrightarrow> pack_s n bs = bs"
  by (simp add: pack_s_def)

lemma slice_join:
  "j = i + a \<Longrightarrow> c = a + b \<Longrightarrow> take a (drop i xs) @ take b (drop j xs) = take c (drop i xs)"
  by (simp add: take_add add.commute)

lemma bind_err_Inr: "bind_err (Inr x) f = f x"
  by (simp add: bind_err_def)

lemma build_reply_layout:
  assumes "44 \<le> length request"
  shows "build_reply request yiaddr (Some server) opts =
           Inr ([2] @ take 11 (drop 1 request) @ take 4 (drop 12 request)
                @ ip_bytes yiaddr @ ip_bytes server @ replicate 4 0
                @ take 16 (drop 28 request) @ replicate 64 0 @ replicate 128 0
                @ MAGIC_COOKIE @ opts)"
proof -
  let ?b = "take 12 request"
  let ?tail = "take 4 (drop 12 request)
                @ ip_bytes yiaddr @ ip_bytes server @ replicate 4 0
                @ take 16 (drop 28 request) @ replicate 64 0 @ replicate 128 0
                @ MAGIC_COOKIE @ opts"
  have unpack: "unpack_header ?b =
      Inr (be_uint (take 1 ?b), be_uint (take 1 (drop 1 ?b)), be_uint (take 1 (drop 2 ?b)),
           be_uint (take 1 (drop 3 ?b)), be_uint (take 4 (drop 4 ?b)),
           be_uint (take 2 (drop 8 ?b)), be_uint (take 2 (drop 10 ?b)))"
    using assms by (simp add: unpack_header_def)
  have f: "pack_be 1 (be_uint (take 1 (drop 1 ?b))) = Inr (take 1 (drop 1 request))"
      "pack_be 1 (be_uint (take 1 (drop 2 ?b))) = Inr (take 1 (drop 2 request))"
      "pack_be 1 (be_uint (take 1 (drop 3 ?b))) = Inr (take 1 (drop 3 request))"
      "pack_be 4 (be_uint (take 4 (drop 4 ?b))) = Inr (take 4 (drop 4 request))"
      "pack_be 2 (be_uint (take 2 (drop 8 ?b))) = Inr (take 2 (drop 8 request))"
      "pack_be 2 (be_uint (take 2 (drop 10 ?b))) = Inr (take 2 (drop 10 request))"
    using assms by (simp_all add: pack_be_be_uint drop_take)
  have op: "pack_be 1 BOOTREPLY = Inr [2]"
    by (simp add: pack_be_def BOOTREPLY_def)
  have ps: "pack_s 4 (take 4 (drop 12 request)) = take 4 (drop 12 request)"
      "pack_s 4 (ip_bytes yiaddr) = ip_bytes yiaddr"
      "pack_s 4 (ip_bytes server) = ip_bytes server"
      "pack_s 4 [0, 0, 0, 0] = replicate 4 0"
      "pack_s 16 (take 16 (drop 28 request)) = take 16 (drop 28 request)"
      "pack_s 64 (replicate 64 0) = replicate 64 0"
      "pack_s 128 (replicate 128 0) = replicate 128 0"
    using assms by (simp_all add: pack_s_def ip_bytes_def length_be_bytes numeral_eq_Suc)
  have h1: "take 2 (drop 8 request) @ take 2 (drop 10 request) = take 4 (drop 8 request)"
    by (rule slice_join) simp_all
  have h2: "take 4 (drop 4 request) @ take 4 (drop 8 request) = take 8 (drop 4 request)"
    by (rule slice_join) simp_all
  have h3: "take 1 (drop 3 request) @ take 8 (drop 4 request) = take 9 (drop 3 request)"
    by (rule slice_join) simp_all
  have h4: "take 1 (drop 2 request) @ take 9 (drop 3 request) = take 10 (drop 2 request)"
    by (rule slice_join) simp_all
  have h5: "take 1 (drop 1 request) @ take 10 (drop 2 request) = take 11 (drop 1 request)"
    by (rule slice_join) simp_all
  have hdr: "take 1 (drop 1 request) @ take 1 (drop 2 request) @ take 1 (drop 3 request)
        @ take 4 (drop 4 request) @ take 2 (drop 8 request) @ take 2 (drop 10 request)
        = take 11 (drop 1 request)"
    by (simp only: h1 h2 h3 h4 h5)
  have "build_reply request yiaddr (Some server) opts =
     Inr ([2] @ take 1 (drop 1 request) @ take 1 (drop 2 request) @ take 1 (drop 3 request)
        @ take 4 (drop 4 request) @ take 2 (drop 8 request) @ take 2 (drop 10 request) @ ?tail)"
    by (simp only: build_reply_def unpack bind_err_Inr prod.case Let_def option.case f op ps)
  also have "[2] @ take 1 (drop 1 request) @ take 1 (drop 2 request) @ take 1 (drop 3 request)
        @ take 4 (drop 4 request) @ take 2 (drop 8 request) @ take 2 (drop 10 request) @ ?tail
      = [2] @ take 11 (drop 1 request) @ ?tail"
    by (simp only: hdr [symmetric] append_assoc)
  finally show ?thesis .
qed

text \<open>
  C6: for every request of at least 44 bytes (and a server address that \<^verbatim>\<open>inet_aton\<close>
  accepts), \<^verbatim>\<open>build_reply\<close> returns a reply whose first byte, op, is 2; whose bytes 1 to 11
  (htype, hlen, hops, xid, secs, flags), ciaddr at 12 to 15 and chaddr at 28 to 43 are those of
  the request; whose yiaddr and siaddr are the assigned and the server address in network order;
  whose giaddr, sname (64 bytes) and file (128 bytes) are zero; and whose 236-byte header is
  followed by the magic cookie and then the option bytes.
\<close>

theorem build_reply_fields:
  assumes "44 \<le> length request"
  shows "\<exists>reply. build_reply request yiaddr (Some server) opts = Inr reply \<and>
           take 1 reply = [2] \<and>
           take 11 (drop 1 reply) = take 11 (drop 1 request) \<and>
           take 4 (drop 4 reply) = take 4 (drop 4 request) \<and>
           take 4 (drop 12 reply) = take 4 (drop 12 request) \<and>
           take 4 (drop 16 reply) = ip_bytes yiaddr \<and> be_uint (ip_bytes yiaddr) = uint yiaddr \<and>
           take 4 (drop 20 reply) = ip_bytes server \<and> be_uint (ip_bytes server) = uint server \<and>
           take 4 (drop 24 reply) = replicate 4 0 \<and>
           take 16 (drop 28 reply) = take 16 (drop 28 request) \<and>
           take 64 (drop 44 reply) = replicate 64 0 \<and>
           take 128 (drop 108 reply) = replicate 128 0 \<and>
           length (take 236 reply) = 236 \<and>
           take 4 (drop 236 reply) = [0x63, 0x82, 0x53, 0x63] \<and>
           drop 240 reply = opts"
proof -
  let ?reply = "[2] @ take 11 (drop 1 request) @ take 4 (drop 12 request)
                @ ip_bytes yiaddr @ ip_bytes server @ replicate 4 0
                @ take 16 (drop 28 request) @ replicate 64 0 @ replicate 128 0
                @ MAGIC_COOKIE @ opts"
  have ip: "be_uint (ip_bytes a) = uint a" for a :: ipv4
  proof -
    have "uint a < 2 ^ 32" using uint_bounded [of a] by simp
    then have "uint a < 256 ^ 4" by simp
    then show ?thesis unfolding ip_bytes_def by (intro be_uint_be_bytes) simp_all
  qed
  have len: "length (ip_bytes a) = 4" for a
    by (simp add: ip_bytes_def length_be_bytes)
  have "build_reply request yiaddr (Some server) opts = Inr ?reply"
    using assms by (rule build_reply_layout)
  moreover have "take 1 ?reply = [2]" by simp
  moreover have "take 11 (drop 1 ?reply) = take 11 (drop 1 request)" using assms by simp
  moreover have "take 4 (drop 4 ?reply) = take 4 (drop 4 request)"
    using assms by (simp add: drop_take)
  moreover have "take 4 (drop 12 ?reply) = take 4 (drop 12 request)" using assms by simp
  moreover have "take 4 (drop 16 ?reply) = ip_bytes yiaddr" using assms by (simp add: len)
  moreover have "take 4 (drop 20 ?reply) = ip_bytes server" using assms by (simp add: len)
  moreover have "take 4 (drop 24 ?reply) = replicate 4 0" using assms by (simp add: len)
  moreover have "take 16 (drop 28 ?reply) = take 16 (drop 28 request)"
    using assms by (simp add: len)
  moreover have "take 64 (drop 44 ?reply) = replicate 64 0" using assms by (simp add: len)
  moreover have "take 128 (drop 108 ?reply) = replicate 128 0" using assms by (simp add: len)
  moreover have "length (take 236 ?reply) = 236" using assms by (simp add: len)
  moreover have "take 4 (drop 236 ?reply) = [0x63, 0x82, 0x53, 0x63]"
    using assms by (simp add: len MAGIC_COOKIE_def)
  moreover have "drop 240 ?reply = opts" using assms by (simp add: len MAGIC_COOKIE_def)
  ultimately show ?thesis using ip [of yiaddr] ip [of server] by blast
qed

theorem build_reply_fields_witness:
  "44 \<le> length example_request \<and>
   (\<exists>reply. build_reply example_request 0x0A00000A (Some 0x0A000001) [255] = Inr reply \<and>
      take 1 reply = [2] \<and> be_uint (take 4 (drop 4 reply)) = 0x12345678 \<and>
      take 4 (drop 16 reply) = [10, 0, 0, 10] \<and> take 4 (drop 20 reply) = [10, 0, 0, 1] \<and>
      take 4 (drop 236 reply) = [0x63, 0x82, 0x53, 0x63] \<and> drop 240 reply = [255])"
proof -
  have h: "44 \<le> length example_request" by (simp add: example_request_def)
  from build_reply_fields [OF h, of "0x0A00000A" "0x0A000001" "[255]"]
  obtain reply where r: "build_reply example_request 0x0A00000A (Some 0x0A000001) [255] = Inr reply"
    "take 1 reply = [2]" "take 4 (drop 4 reply) = take 4 (drop 4 example_request)"
    "take 4 (drop 16 reply) = ip_bytes 0x0A00000A" "take 4 (drop 20 reply) = ip_bytes 0x0A000001"
    "take 4 (drop 236 reply) = [0x63, 0x82, 0x53, 0x63]" "drop 240 reply = [255]"
    by blast
  have "be_uint (take 4 (drop 4 example_request)) = 0x12345678"
    by (simp add: example_request_def be_uint_def)
  moreover have "ip_bytes 0x0A00000A = [10, 0, 0, 10]" "ip_bytes 0x0A000001 = [10, 0, 0, 1]"
    by code_simp+
  ultimately show ?thesis using h r by auto
qed

section \<open>Float arithmetic\<close>

lemma float_gt_later: "\<not> float_gt e t \<Longrightarrow> t \<le> t' \<Longrightarrow> \<not> float_gt e t'"
  by (cases e) simp_all

lemma pow2_powi: "pow2 k = 2 powi k"
  by (simp add: pow2_def power_int_def power_one_over field_simps)

lemma pow2_pos: "0 < pow2 k"
  by (simp add: pow2_powi)

lemma pow2_add: "pow2 (a + b) = pow2 a * pow2 b"
  by (simp add: pow2_powi power_int_add)

lemma pow2_mono: "a \<le> b \<Longrightarrow> pow2 a \<le> pow2 b"
  by (simp add: pow2_powi power_int_increasing)

lemma pow2_nat: "pow2 (int n) = 2 ^ n"
  by (simp add: pow2_def)

lemma pow2_Suc: "pow2 (k + 1) = 2 * pow2 k"
  using pow2_add [of k 1] by (simp add: pow2_def)

lemma binary_exponent_spec:
  "pow2 E \<le> a \<Longrightarrow> a < pow2 (E + 1) \<Longrightarrow> nat \<bar>E\<bar> \<le> fuel \<Longrightarrow>
   binary_exponent fuel a e = e + E"
proof (induction fuel arbitrary: a e E)
  case 0
  then show ?case by simp
next
  case (Suc fuel)
  consider (up) "0 < E" | (down) "E < 0" | (here) "E = 0" by linarith
  then show ?case
  proof cases
    case up
    have "pow2 1 \<le> pow2 E" using up by (intro pow2_mono) simp
    then have big: "2 \<le> a" using Suc.prems(1) by (simp add: pow2_def)
    have "pow2 ((E - 1) + 1) = 2 * pow2 (E - 1)" by (rule pow2_Suc)
    then have lo: "pow2 (E - 1) \<le> a / 2" using Suc.prems(1) by simp
    have hi: "a / 2 < pow2 ((E - 1) + 1)"
      using Suc.prems(2) pow2_Suc [of E] by simp
    have "binary_exponent fuel (a / 2) (e + 1) = (e + 1) + (E - 1)"
      using lo hi by (rule Suc.IH) (use up Suc.prems(3) in linarith)
    with big show ?thesis by simp
  next
    case down
    have "pow2 (E + 1) \<le> pow2 0" using down by (intro pow2_mono) simp
    then have small: "a < 1" using Suc.prems(2) by (simp add: pow2_def)
    have lo: "pow2 (E + 1) \<le> a * 2"
      using Suc.prems(1) pow2_Suc [of E] by simp
    have hi: "a * 2 < pow2 ((E + 1) + 1)"
      using Suc.prems(2) pow2_Suc [of "E + 1"] by simp
    have "binary_exponent fuel (a * 2) (e - 1) = (e - 1) + (E + 1)"
      using lo hi by (rule Suc.IH) (use down Suc.prems(3) in linarith)
    with small show ?thesis by simp
  next
    case here
    with Suc.prems(1,2) have "1 \<le> a" "a < 2" by (simp_all add: pow2_def)
    with here show ?thesis by simp
  qed
qed

lemma round_half_even_int: "round_half_even (of_int k) = k"
  by (simp add: round_half_even_def)

lemma floor_le_round_half_even: "\<lfloor>q\<rfloor> \<le> round_half_even q"
  by (simp add: round_half_even_def Let_def)

text \<open>A non-negative integer below \<open>2\<^sup>5\<^sup>3\<close> is a double and rounds to itself.\<close>

lemma round_double_int:
  assumes "0 \<le> n" and "n < 2 ^ 53"
  shows "round_double (of_int n) = Finite (of_int n)"
proof (cases "n = 0")
  case True
  have "(0 :: rat) < pow2 (- 1022)" "\<not> pow2 1024 \<le> (0 :: rat)"
    using pow2_pos [of "- 1022"] pow2_pos [of 1024] by simp_all
  then show ?thesis by (simp add: True round_double_def round_half_even_def)
next
  case False
  with assms have pos: "1 \<le> nat n" by simp
  from ex_power_ivl1 [OF order_refl pos]
  obtain E :: nat where E: "2 ^ E \<le> nat n" "nat n < 2 ^ (E + 1)" by blast
  let ?a = "of_int n :: rat"
  have n: "n = int (nat n)" using assms(1) by simp
  have lo: "pow2 (int E) \<le> ?a"
  proof -
    have "(2 :: int) ^ E \<le> n" using E(1) n by (metis of_nat_le_iff of_nat_numeral of_nat_power)
    then have "(of_int (2 ^ E) :: rat) \<le> of_int n" by (simp only: of_int_le_iff)
    then show ?thesis by (simp add: pow2_nat)
  qed
  have hi: "?a < pow2 (int E + 1)"
  proof -
    have "n < (2 :: int) ^ (E + 1)" using E(2) n by (metis of_nat_less_iff of_nat_numeral of_nat_power)
    then have "(of_int n :: rat) < of_int (2 ^ (E + 1))" by (simp only: of_int_less_iff)
    moreover have "pow2 (int E + 1) = 2 ^ (E + 1)"
      using pow2_nat [of "E + 1"] by (simp add: add.commute)
    ultimately show ?thesis by simp
  qed
  have "(2 :: int) ^ E \<le> n" using E(1) n by (metis of_nat_le_iff of_nat_numeral of_nat_power)
  with assms(2) have "(2 :: int) ^ E < 2 ^ 53" by simp
  then have E53: "E < 53" by (rule power_less_imp_less_exp [rotated]) simp
  have abs: "\<bar>?a\<bar> = ?a" using assms(1) by simp
  have one: "1 \<le> ?a" using False assms(1) by simp
  have "pow2 (- 1022) \<le> pow2 0" by (intro pow2_mono) simp
  then have c1: "\<not> ?a < pow2 (- 1022)" using one by (simp add: pow2_def)
  have "?a < of_int (2 ^ 53)" using assms(2) by (simp only: of_int_less_iff)
  then have lt53: "?a < pow2 53" using pow2_nat [of 53] by simp
  have "pow2 53 \<le> pow2 1024" by (intro pow2_mono) simp
  with lt53 have c2: "\<not> pow2 1024 \<le> ?a" by simp
  have ex: "binary_exponent 2048 ?a 0 = 0 + int E"
    using lo hi by (rule binary_exponent_spec) (use E53 in simp)
  let ?ulp = "pow2 (int E - 52)"
  have "pow2 (int E - 52) * pow2 (52 - int E) = pow2 0"
    using pow2_add [of "int E - 52" "52 - int E"] by simp
  then have inv: "?ulp * pow2 (int (52 - E)) = 1"
    using E53 by (simp add: pow2_def of_nat_diff)
  have q: "?a / ?ulp = of_int (n * 2 ^ (52 - E))"
  proof -
    have "?a / ?ulp = ?a * pow2 (int (52 - E))"
      using inv pow2_pos [of "int E - 52"] by (simp add: field_simps)
    then show ?thesis by (simp add: pow2_nat)
  qed
  have r: "of_int (round_half_even (?a / ?ulp)) * ?ulp = ?a"
  proof -
    have "of_int (round_half_even (?a / ?ulp)) * ?ulp = (?a * pow2 (int (52 - E))) * ?ulp"
      unfolding q round_half_even_int by (simp add: pow2_nat)
    also have "\<dots> = ?a" using inv by (simp add: mult.assoc mult.commute)
    finally show ?thesis .
  qed
  show ?thesis
    unfolding round_double_def abs Let_def using c1 c2 assms(1)
    by (simp add: ex r)
qed

text \<open>From \<open>2\<^sup>1\<^sup>0\<^sup>2\<^sup>4\<close> on an integer has no double, and the conversion raises.\<close>

lemma float_of_int_overflow:
  assumes "2 ^ 1024 \<le> n"
  shows "float_of_int n = Inl OverflowError"
proof -
  let ?a = "of_int n :: rat"
  have "(of_int (2 ^ 1024) :: rat) \<le> of_int n" using assms by (simp only: of_int_le_iff)
  then have big: "pow2 1024 \<le> ?a" using pow2_nat [of 1024] by simp
  have pos: "0 < ?a" using big pow2_pos [of 1024] by linarith
  then have abs: "\<bar>?a\<bar> = ?a" by simp
  have "pow2 (- 1022) \<le> pow2 1024" by (intro pow2_mono) simp
  with big have c1: "\<not> ?a < pow2 (- 1022)" by simp
  let ?ulp = "pow2 972"
  have split: "pow2 1024 = pow2 52 * ?ulp" using pow2_add [of 52 972] by simp
  have "pow2 52 \<le> ?a / ?ulp"
    using big pow2_pos [of 972] unfolding split by (simp add: field_simps)
  then have "(of_int (2 ^ 52) :: rat) \<le> ?a / ?ulp" using pow2_nat [of 52] by simp
  then have "2 ^ 52 \<le> \<lfloor>?a / ?ulp\<rfloor>" by (simp only: le_floor_iff)
  with floor_le_round_half_even [of "?a / ?ulp"]
  have "2 ^ 52 \<le> round_half_even (?a / ?ulp)" by linarith
  then have "(of_int (2 ^ 52) :: rat) \<le> of_int (round_half_even (?a / ?ulp))"
    by (simp only: of_int_le_iff)
  then have "pow2 52 \<le> of_int (round_half_even (?a / ?ulp))" using pow2_nat [of 52] by simp
  then have "pow2 52 * ?ulp \<le> of_int (round_half_even (?a / ?ulp)) * ?ulp"
    using pow2_pos [of 972] by (simp only: mult_le_cancel_right_pos)
  then have over: "pow2 1024 \<le> of_int (round_half_even (?a / ?ulp)) * ?ulp"
    unfolding split .
  have "round_double ?a = PosInf"
    unfolding round_double_def abs Let_def using c1 big over pos by simp
  then show ?thesis by (simp add: float_of_int_def)
qed

lemma float_add_int_overflow: "2 ^ 1024 \<le> n \<Longrightarrow> float_add_int x n = Inl OverflowError"
  by (simp add: float_add_int_def float_of_int_overflow)

lemma float_add_int_small:
  assumes "0 \<le> m" and "0 \<le> n" and "m + n < 2 ^ 53"
  shows "float_add_int (of_int m) n = Inr (Finite (of_int (m + n)))"
proof -
  from assms have "n < 2 ^ 53" by linarith
  with assms(2) have "round_double (of_int n) = Finite (of_int n)" by (rule round_double_int)
  then have "float_of_int n = Inr (of_int n)" by (simp add: float_of_int_def)
  moreover have "round_double (of_int (m + n)) = Finite (of_int (m + n))"
    using assms by (intro round_double_int) simp_all
  ultimately show ?thesis by (simp add: float_add_int_def)
qed

section \<open>The lease pool\<close>

lemma is_available_eq:
  "is_available clock s ip =
     ((\<forall>(m, lip, e) \<in> set (leases s). lip = ip \<longrightarrow> \<not> float_gt e (clock (ticks s))),
      s\<lparr>ticks := Suc (ticks s)\<rparr>)"
  by (auto simp: is_available_def time_time_def list_all_iff)

lemma in_iter_pool: "ip \<in> set (iter_pool s) \<Longrightarrow> pool_start s \<le> ip \<and> ip \<le> pool_end s"
proof -
  assume "ip \<in> set (iter_pool s)"
  then obtain n where n: "ip = word_of_nat n" "unat (pool_start s) \<le> n" "n \<le> unat (pool_end s)"
    by (auto simp: iter_pool_def)
  then have "unat ip = n" by (simp add: le_unat_uoi)
  with n show ?thesis by (simp add: word_le_nat_alt)
qed

text \<open>Storing a lease either raises and stores nothing, or stores the float sum as expiry.\<close>

lemma bind_lease_cases:
  assumes "bind_lease mac ip now s = (r, s')"
  shows "(\<exists>e. r = Inl e) \<and> s' = s \<or>
         (\<exists>expiry. float_add_int now (lease_time s) = Inr expiry \<and> r = Inr (Some ip) \<and>
            s' = s\<lparr>leases := AList.update mac (ip, expiry) (leases s)\<rparr>)"
proof (cases "float_add_int now (lease_time s)")
  case (Inl e)
  with assms show ?thesis by (auto simp: bind_lease_def)
next
  case (Inr expiry)
  with assms show ?thesis by (auto simp: bind_lease_def)
qed

text \<open>
  What a scan does to the manager: it reads the clock, and either leaves the table as it is and
  returns no address, or stores one entry for \<open>mac\<close>, on an address that no entry held actively
  at one of the readings taken.
\<close>

lemma scan_pool_effect:
  "scan_pool clock mac now ips s = (r, s') \<Longrightarrow>
   pool_start s' = pool_start s \<and> pool_end s' = pool_end s \<and> lease_time s' = lease_time s \<and>
   ticks s \<le> ticks s' \<and>
   (leases s' = leases s \<and> (\<forall>ip. r \<noteq> Inr (Some ip)) \<or>
    (\<exists>ip j expiry. r = Inr (Some ip) \<and> ip \<in> set ips \<and>
       float_add_int now (lease_time s) = Inr expiry \<and>
       leases s' = AList.update mac (ip, expiry) (leases s) \<and>
       ticks s \<le> j \<and> j < ticks s' \<and>
       (\<forall>(m, lip, e) \<in> set (leases s). lip = ip \<longrightarrow> \<not> float_gt e (clock j))))"
proof (induction ips arbitrary: s)
  case Nil
  then show ?case by auto
next
  case (Cons ip ips)
  let ?s1 = "s\<lparr>ticks := Suc (ticks s)\<rparr>"
  show ?case
  proof (cases "\<forall>(m, lip, e) \<in> set (leases s). lip = ip \<longrightarrow> \<not> float_gt e (clock (ticks s))")
    case True
    with Cons.prems have "bind_lease mac ip now ?s1 = (r, s')"
      by (simp add: is_available_eq)
    from bind_lease_cases [OF this]
    consider (raised) "\<exists>e. r = Inl e" "s' = ?s1"
      | (stored) expiry where "float_add_int now (lease_time s) = Inr expiry" "r = Inr (Some ip)"
          "s' = ?s1\<lparr>leases := AList.update mac (ip, expiry) (leases ?s1)\<rparr>"
      by auto
    then show ?thesis
    proof cases
      case raised
      then show ?thesis by auto
    next
      case stored
      have "leases s' = AList.update mac (ip, expiry) (leases s)" "ticks s' = Suc (ticks s)"
        "pool_start s' = pool_start s" "pool_end s' = pool_end s" "lease_time s' = lease_time s"
        using stored(3) by simp_all
      with stored(1,2) True show ?thesis
        by (intro conjI disjI2 exI [of _ ip] exI [of _ "ticks s"] exI [of _ expiry]) simp_all
    qed
  next
    case False
    with Cons.prems have "scan_pool clock mac now ips ?s1 = (r, s')"
      by (simp add: is_available_eq)
    from Cons.IH [OF this]
    have f: "pool_start s' = pool_start s \<and> pool_end s' = pool_end s \<and>
        lease_time s' = lease_time s \<and> Suc (ticks s) \<le> ticks s'"
      and d: "leases s' = leases s \<and> (\<forall>ip. r \<noteq> Inr (Some ip)) \<or>
        (\<exists>ip j expiry. r = Inr (Some ip) \<and> ip \<in> set ips \<and>
           float_add_int now (lease_time s) = Inr expiry \<and>
           leases s' = AList.update mac (ip, expiry) (leases s) \<and>
           Suc (ticks s) \<le> j \<and> j < ticks s' \<and>
           (\<forall>(m, lip, e) \<in> set (leases s). lip = ip \<longrightarrow> \<not> float_gt e (clock j)))"
      by simp_all
    from d show ?thesis
    proof
      assume "leases s' = leases s \<and> (\<forall>ip. r \<noteq> Inr (Some ip))"
      with f show ?thesis by simp
    next
      assume "\<exists>ip j expiry. r = Inr (Some ip) \<and> ip \<in> set ips \<and>
           float_add_int now (lease_time s) = Inr expiry \<and>
           leases s' = AList.update mac (ip, expiry) (leases s) \<and>
           Suc (ticks s) \<le> j \<and> j < ticks s' \<and>
           (\<forall>(m, lip, e) \<in> set (leases s). lip = ip \<longrightarrow> \<not> float_gt e (clock j))"
      then obtain ip' j expiry where "r = Inr (Some ip')" "ip' \<in> set (ip # ips)"
        "float_add_int now (lease_time s) = Inr expiry"
        "leases s' = AList.update mac (ip', expiry) (leases s)"
        "ticks s \<le> j" "j < ticks s'"
        "\<forall>(m, lip, e) \<in> set (leases s). lip = ip' \<longrightarrow> \<not> float_gt e (clock j)"
        by (auto intro: Suc_leD)
      with f show ?thesis
        by (intro conjI disjI2 exI [of _ ip'] exI [of _ j] exI [of _ expiry]) simp_all
    qed
  qed
qed

lemma allocate_scan_effect:
  "allocate_scan clock mac now s = (r, s') \<Longrightarrow>
   pool_start s' = pool_start s \<and> pool_end s' = pool_end s \<and> lease_time s' = lease_time s \<and>
   ticks s \<le> ticks s' \<and>
   (leases s' = leases s \<and> (\<forall>ip. r \<noteq> Inr (Some ip)) \<or>
    (\<exists>ip j expiry. r = Inr (Some ip) \<and> pool_start s \<le> ip \<and> ip \<le> pool_end s \<and>
       float_add_int now (lease_time s) = Inr expiry \<and>
       leases s' = AList.update mac (ip, expiry) (leases s) \<and>
       ticks s \<le> j \<and> j < ticks s' \<and>
       (\<forall>(m, lip, e) \<in> set (leases s). lip = ip \<longrightarrow> \<not> float_gt e (clock j))))"
proof -
  assume "allocate_scan clock mac now s = (r, s')"
  then have sc: "scan_pool clock mac now (iter_pool s) s = (r, s')"
    by (simp add: allocate_scan_def)
  from scan_pool_effect [OF sc]
  have f: "pool_start s' = pool_start s \<and> pool_end s' = pool_end s \<and>
      lease_time s' = lease_time s \<and> ticks s \<le> ticks s'"
    and d: "leases s' = leases s \<and> (\<forall>ip. r \<noteq> Inr (Some ip)) \<or>
      (\<exists>ip j expiry. r = Inr (Some ip) \<and> ip \<in> set (iter_pool s) \<and>
         float_add_int now (lease_time s) = Inr expiry \<and>
         leases s' = AList.update mac (ip, expiry) (leases s) \<and>
         ticks s \<le> j \<and> j < ticks s' \<and>
         (\<forall>(m, lip, e) \<in> set (leases s). lip = ip \<longrightarrow> \<not> float_gt e (clock j)))"
    by simp_all
  from d show ?thesis
  proof
    assume "leases s' = leases s \<and> (\<forall>ip. r \<noteq> Inr (Some ip))"
    with f show ?thesis by simp
  next
    assume "\<exists>ip j expiry. r = Inr (Some ip) \<and> ip \<in> set (iter_pool s) \<and>
         float_add_int now (lease_time s) = Inr expiry \<and>
         leases s' = AList.update mac (ip, expiry) (leases s) \<and>
         ticks s \<le> j \<and> j < ticks s' \<and>
         (\<forall>(m, lip, e) \<in> set (leases s). lip = ip \<longrightarrow> \<not> float_gt e (clock j))"
    then obtain ip j expiry where g: "r = Inr (Some ip)" "ip \<in> set (iter_pool s)"
      "float_add_int now (lease_time s) = Inr expiry"
      "leases s' = AList.update mac (ip, expiry) (leases s)"
      "ticks s \<le> j" "j < ticks s'"
      "\<forall>(m, lip, e) \<in> set (leases s). lip = ip \<longrightarrow> \<not> float_gt e (clock j)"
      by blast
    from in_iter_pool [OF g(2)] have "pool_start s \<le> ip" "ip \<le> pool_end s" by simp_all
    with f g show ?thesis
      by (intro conjI disjI2 exI [of _ ip] exI [of _ j] exI [of _ expiry]) simp_all
  qed
qed

lemma allocate_fresh_cases:
  assumes "allocate_fresh clock mac now req s = (r, s')"
  shows "allocate_scan clock mac now s = (r, s') \<or>
         r = Inl TypeError \<and> s' = s \<or>
         (\<exists>ip. pool_start s \<le> ip \<and> ip \<le> pool_end s \<and>
            (\<forall>(m, lip, e) \<in> set (leases s). lip = ip \<longrightarrow> \<not> float_gt e (clock (ticks s))) \<and>
            bind_lease mac ip now (s\<lparr>ticks := Suc (ticks s)\<rparr>) = (r, s')) \<or>
         allocate_scan clock mac now (s\<lparr>ticks := Suc (ticks s)\<rparr>) = (r, s')"
proof (cases req)
  case NoRequest
  with assms show ?thesis by (simp add: allocate_fresh_def)
next
  case Unparsable
  with assms show ?thesis by (simp add: allocate_fresh_def)
next
  case (Parsed a)
  show ?thesis
  proof (cases a)
    case (IPv6Address x)
    with assms Parsed show ?thesis by (simp add: allocate_fresh_def)
  next
    case (IPv4Address ip)
    show ?thesis
    proof (cases "pool_start s \<le> ip \<and> ip \<le> pool_end s")
      case False
      with assms Parsed IPv4Address show ?thesis by (simp add: allocate_fresh_def)
    next
      case True
      show ?thesis
      proof (cases "\<forall>(m, lip, e) \<in> set (leases s). lip = ip \<longrightarrow> \<not> float_gt e (clock (ticks s))")
        case free: True
        with assms Parsed IPv4Address True
        have "bind_lease mac ip now (s\<lparr>ticks := Suc (ticks s)\<rparr>) = (r, s')"
          by (simp add: allocate_fresh_def is_available_eq)
        with True free show ?thesis by blast
      next
        case False
        with assms Parsed IPv4Address True show ?thesis
          by (simp add: allocate_fresh_def is_available_eq)
      qed
    qed
  qed
qed

lemma allocate_fresh_effect:
  "allocate_fresh clock mac now req s = (r, s') \<Longrightarrow>
   pool_start s' = pool_start s \<and> pool_end s' = pool_end s \<and> lease_time s' = lease_time s \<and>
   ticks s \<le> ticks s' \<and>
   (leases s' = leases s \<and> (\<forall>ip. r \<noteq> Inr (Some ip)) \<or>
    (\<exists>ip j expiry. r = Inr (Some ip) \<and> pool_start s \<le> ip \<and> ip \<le> pool_end s \<and>
       float_add_int now (lease_time s) = Inr expiry \<and>
       leases s' = AList.update mac (ip, expiry) (leases s) \<and>
       ticks s \<le> j \<and> j < ticks s' \<and>
       (\<forall>(m, lip, e) \<in> set (leases s). lip = ip \<longrightarrow> \<not> float_gt e (clock j))))"
proof -
  assume a: "allocate_fresh clock mac now req s = (r, s')"
  let ?s1 = "s\<lparr>ticks := Suc (ticks s)\<rparr>"
  from allocate_fresh_cases [OF a]
  consider (scan) "allocate_scan clock mac now s = (r, s')"
    | (v6) "r = Inl TypeError" "s' = s"
    | (bind) ip where "pool_start s \<le> ip" "ip \<le> pool_end s"
        "\<forall>(m, lip, e) \<in> set (leases s). lip = ip \<longrightarrow> \<not> float_gt e (clock (ticks s))"
        "bind_lease mac ip now ?s1 = (r, s')"
    | (busy) "allocate_scan clock mac now ?s1 = (r, s')"
    by blast
  then show ?thesis
  proof cases
    case scan
    from allocate_scan_effect [OF this] show ?thesis .
  next
    case v6
    then show ?thesis by simp
  next
    case bind
    from bind_lease_cases [OF bind(4)]
    consider (raised) "\<exists>e. r = Inl e" "s' = ?s1"
      | (stored) expiry where "float_add_int now (lease_time s) = Inr expiry" "r = Inr (Some ip)"
          "s' = ?s1\<lparr>leases := AList.update mac (ip, expiry) (leases ?s1)\<rparr>"
      by auto
    then show ?thesis
    proof cases
      case raised
      then show ?thesis by auto
    next
      case stored
      have "leases s' = AList.update mac (ip, expiry) (leases s)" "ticks s' = Suc (ticks s)"
        "pool_start s' = pool_start s" "pool_end s' = pool_end s" "lease_time s' = lease_time s"
        using stored(3) by simp_all
      with stored(1,2) bind(1-3) show ?thesis
        by (intro conjI disjI2 exI [of _ ip] exI [of _ "ticks s"] exI [of _ expiry]) simp_all
    qed
  next
    case busy
    from allocate_scan_effect [OF this]
    have f: "pool_start s' = pool_start s \<and> pool_end s' = pool_end s \<and>
        lease_time s' = lease_time s \<and> Suc (ticks s) \<le> ticks s'"
      and d: "leases s' = leases s \<and> (\<forall>ip. r \<noteq> Inr (Some ip)) \<or>
    (\<exists>ip j expiry. r = Inr (Some ip) \<and> pool_start s \<le> ip \<and> ip \<le> pool_end s \<and>
       float_add_int now (lease_time s) = Inr expiry \<and>
       leases s' = AList.update mac (ip, expiry) (leases s) \<and>
       Suc (ticks s) \<le> j \<and> j < ticks s' \<and>
       (\<forall>(m, lip, e) \<in> set (leases s). lip = ip \<longrightarrow> \<not> float_gt e (clock j)))"
      by simp_all
    from d show ?thesis
    proof
      assume "leases s' = leases s \<and> (\<forall>ip. r \<noteq> Inr (Some ip))"
      with f show ?thesis by simp
    next
      assume "\<exists>ip j expiry. r = Inr (Some ip) \<and> pool_start s \<le> ip \<and> ip \<le> pool_end s \<and>
       float_add_int now (lease_time s) = Inr expiry \<and>
       leases s' = AList.update mac (ip, expiry) (leases s) \<and>
       Suc (ticks s) \<le> j \<and> j < ticks s' \<and>
       (\<forall>(m, lip, e) \<in> set (leases s). lip = ip \<longrightarrow> \<not> float_gt e (clock j))"
      then obtain ip j expiry where "r = Inr (Some ip)" "pool_start s \<le> ip" "ip \<le> pool_end s"
        "float_add_int now (lease_time s) = Inr expiry"
        "leases s' = AList.update mac (ip, expiry) (leases s)"
        "ticks s \<le> j" "j < ticks s'"
        "\<forall>(m, lip, e) \<in> set (leases s). lip = ip \<longrightarrow> \<not> float_gt e (clock j)"
        by (auto intro: Suc_leD)
      with f show ?thesis
        by (intro conjI disjI2 exI [of _ ip] exI [of _ j] exI [of _ expiry]) simp_all
    qed
  qed
qed

lemma allocate_cases:
  assumes "allocate clock s mac req = (r, s')"
  shows "(\<exists>ip e. map_of (leases s) mac = Some (ip, e) \<and> r = Inr (Some ip) \<and>
            s' = s\<lparr>ticks := Suc (ticks s)\<rparr>) \<or>
         allocate_fresh clock mac (clock (ticks s)) req (s\<lparr>ticks := Suc (ticks s)\<rparr>) = (r, s')"
proof (cases "map_of (leases s) mac")
  case None
  with assms show ?thesis by (simp add: allocate_def time_time_def)
next
  case (Some p)
  obtain ip e where p: "p = (ip, e)" by (cases p)
  show ?thesis
  proof (cases "float_gt e (clock (ticks s))")
    case True
    with assms Some p show ?thesis by (simp add: allocate_def time_time_def)
  next
    case False
    with assms Some p show ?thesis by (simp add: allocate_def time_time_def)
  qed
qed

text \<open>
  What a call of \<^verbatim>\<open>allocate\<close> does to the manager: it reads the clock at least once, never
  touches the pool bounds or the lease duration, and either leaves the table as it is (returning
  the address of the caller's entry if it returns one) or stores one entry for \<open>mac\<close>: an
  address within the pool bounds that no entry held actively at a reading taken during the call,
  with the float sum of the first reading and the lease duration as expiry.
\<close>

lemma allocate_effect:
  "allocate clock s mac req = (r, s') \<Longrightarrow>
   pool_start s' = pool_start s \<and> pool_end s' = pool_end s \<and> lease_time s' = lease_time s \<and>
   ticks s < ticks s' \<and>
   (leases s' = leases s \<and>
      (\<forall>ip. r = Inr (Some ip) \<longrightarrow> (\<exists>e. map_of (leases s) mac = Some (ip, e))) \<or>
    (\<exists>ip j expiry. r = Inr (Some ip) \<and> pool_start s \<le> ip \<and> ip \<le> pool_end s \<and>
       float_add_int (clock (ticks s)) (lease_time s) = Inr expiry \<and>
       leases s' = AList.update mac (ip, expiry) (leases s) \<and>
       ticks s < j \<and> j < ticks s' \<and>
       (\<forall>(m, lip, e) \<in> set (leases s). lip = ip \<longrightarrow> \<not> float_gt e (clock j))))"
proof -
  assume a: "allocate clock s mac req = (r, s')"
  let ?s1 = "s\<lparr>ticks := Suc (ticks s)\<rparr>"
  from allocate_cases [OF a]
  consider (active) ip e where "map_of (leases s) mac = Some (ip, e)" "r = Inr (Some ip)" "s' = ?s1"
    | (fresh) "allocate_fresh clock mac (clock (ticks s)) req ?s1 = (r, s')"
    by blast
  then show ?thesis
  proof cases
    case active
    then show ?thesis by simp
  next
    case fresh
    from allocate_fresh_effect [OF this]
    have f: "pool_start s' = pool_start s \<and> pool_end s' = pool_end s \<and>
        lease_time s' = lease_time s \<and> ticks s < ticks s'"
      and d: "leases s' = leases s \<and> (\<forall>ip. r \<noteq> Inr (Some ip)) \<or>
        (\<exists>ip j expiry. r = Inr (Some ip) \<and> pool_start s \<le> ip \<and> ip \<le> pool_end s \<and>
       float_add_int (clock (ticks s)) (lease_time s) = Inr expiry \<and>
       leases s' = AList.update mac (ip, expiry) (leases s) \<and>
       Suc (ticks s) \<le> j \<and> j < ticks s' \<and>
       (\<forall>(m, lip, e) \<in> set (leases s). lip = ip \<longrightarrow> \<not> float_gt e (clock j)))"
      by simp_all
    from d show ?thesis
    proof
      assume "leases s' = leases s \<and> (\<forall>ip. r \<noteq> Inr (Some ip))"
      with f show ?thesis by auto
    next
      assume "\<exists>ip j expiry. r = Inr (Some ip) \<and> pool_start s \<le> ip \<and> ip \<le> pool_end s \<and>
       float_add_int (clock (ticks s)) (lease_time s) = Inr expiry \<and>
       leases s' = AList.update mac (ip, expiry) (leases s) \<and>
       Suc (ticks s) \<le> j \<and> j < ticks s' \<and>
       (\<forall>(m, lip, e) \<in> set (leases s). lip = ip \<longrightarrow> \<not> float_gt e (clock j))"
      then obtain ip j expiry where "r = Inr (Some ip)" "pool_start s \<le> ip" "ip \<le> pool_end s"
        "float_add_int (clock (ticks s)) (lease_time s) = Inr expiry"
        "leases s' = AList.update mac (ip, expiry) (leases s)"
        "ticks s < j" "j < ticks s'"
        "\<forall>(m, lip, e) \<in> set (leases s). lip = ip \<longrightarrow> \<not> float_gt e (clock j)"
        by (auto simp: Suc_le_eq)
      with f show ?thesis
        by (intro conjI disjI2 exI [of _ ip] exI [of _ j] exI [of _ expiry]) simp_all
    qed
  qed
qed

lemma allocate_existing:
  assumes "map_of (leases s) mac = Some (ip, e)" and "float_gt e (clock (ticks s))"
  shows "allocate clock s mac req = (Inr (Some ip), s\<lparr>ticks := Suc (ticks s)\<rparr>)"
  using assms by (simp add: allocate_def time_time_def)

lemma set_update_subset: "set (AList.update k v al) \<subseteq> insert (k, v) (set al)"
  by (induction al) auto

lemma filter_other_keys: "k \<notin> fst ` set al \<Longrightarrow> filter (\<lambda>p. fst p \<noteq> k) al = al"
  by (induction al) auto

lemma filter_update_distinct:
  "distinct (map fst al) \<Longrightarrow>
   length (filter P (AList.update k v al)) =
   length (filter P (filter (\<lambda>p. fst p \<noteq> k) al)) + (if P (k, v) then 1 else 0)"
proof (induction al)
  case Nil
  show ?case by simp
next
  case (Cons p al)
  show ?case
  proof (cases "fst p = k")
    case True
    with Cons.prems have "k \<notin> fst ` set al" by auto
    then have "filter (\<lambda>p. fst p \<noteq> k) al = al" by (rule filter_other_keys)
    with True show ?thesis by (cases p) simp
  next
    case False
    with Cons show ?thesis by (cases p) simp
  qed
qed

lemma length_filter_filter_le: "length (filter P (filter R xs)) \<le> length (filter P xs)"
  by (induction xs) auto

text \<open>
  C10: a call \<^verbatim>\<open>allocate(mac, requested)\<close> changes at most the lease-table entry keyed by
  \<open>mac\<close>: the entry of every other hardware address, the pool bounds and the lease duration are
  the same before and after, whatever the arguments and whatever the call returns or raises.
\<close>

theorem allocate_frame:
  "m \<noteq> mac \<Longrightarrow>
   map_of (leases (snd (allocate clock s mac req))) m = map_of (leases s) m \<and>
   pool_start (snd (allocate clock s mac req)) = pool_start s \<and>
   pool_end (snd (allocate clock s mac req)) = pool_end s \<and>
   lease_time (snd (allocate clock s mac req)) = lease_time s"
proof -
  assume m: "m \<noteq> mac"
  obtain r s' where a: "allocate clock s mac req = (r, s')" by (cases "allocate clock s mac req")
  from allocate_effect [OF a]
  have f: "pool_start s' = pool_start s" "pool_end s' = pool_end s" "lease_time s' = lease_time s"
    and "leases s' = leases s \<or> (\<exists>v. leases s' = AList.update mac v (leases s))"
    by blast+
  then have "map_of (leases s') m = map_of (leases s) m"
    using m by (auto simp: update_conv')
  with f show ?thesis by (simp add: a)
qed

theorem allocate_frame_witness:
  "''aa'' \<noteq> ''bb'' \<and>
   map_of (leases (snd (allocate example_clock example_one ''bb'' NoRequest))) ''aa'' =
     Some (0x0A00000A, Finite 60) \<and>
   pool_start (snd (allocate example_clock example_one ''bb'' NoRequest)) = 0x0A00000A \<and>
   pool_end (snd (allocate example_clock example_one ''bb'' NoRequest)) = 0x0A00000C \<and>
   lease_time (snd (allocate example_clock example_one ''bb'' NoRequest)) = 60"
  using allocate_frame [of "''aa''" "''bb''" example_clock example_one NoRequest]
  by (simp add: example_one_def)

lemma reachable_pool:
  "reachable clock s0 s \<Longrightarrow>
   pool_start s = pool_start s0 \<and> pool_end s = pool_end s0 \<and> lease_time s = lease_time s0 \<and>
   ticks s0 \<le> ticks s"
proof (induction rule: reachable.induct)
  case start
  show ?case by simp
next
  case (call s mac req r s')
  from allocate_effect [OF call.hyps(2)] call.IH show ?case by simp
qed

lemma allocate_in_pool:
  assumes inv: "\<forall>(m, ip, e) \<in> set (leases s). pool_start s \<le> ip \<and> ip \<le> pool_end s"
    and a: "allocate clock s mac req = (r, s')"
  shows "(\<forall>(m, ip, e) \<in> set (leases s'). pool_start s \<le> ip \<and> ip \<le> pool_end s) \<and>
         (\<forall>ip. r = Inr (Some ip) \<longrightarrow> pool_start s \<le> ip \<and> ip \<le> pool_end s)"
proof -
  from allocate_effect [OF a]
  consider (same) "leases s' = leases s"
      "\<forall>ip. r = Inr (Some ip) \<longrightarrow> (\<exists>e. map_of (leases s) mac = Some (ip, e))"
    | (bound) ip e where "r = Inr (Some ip)" "pool_start s \<le> ip" "ip \<le> pool_end s"
      "leases s' = AList.update mac (ip, e) (leases s)"
    by blast
  then show ?thesis
  proof cases
    case same
    have "pool_start s \<le> ip \<and> ip \<le> pool_end s" if "r = Inr (Some ip)" for ip
    proof -
      from same(2) that obtain e where "map_of (leases s) mac = Some (ip, e)" by blast
      then have "(mac, ip, e) \<in> set (leases s)" by (rule map_of_SomeD)
      with inv show ?thesis by blast
    qed
    with same(1) inv show ?thesis by simp
  next
    case bound
    have "set (leases s') \<subseteq> insert (mac, ip, e) (set (leases s))"
      unfolding bound(4) by (rule set_update_subset)
    with inv bound(1-3) show ?thesis by auto
  qed
qed

lemma reachable_in_pool:
  assumes "leases s0 = []" and "reachable clock s0 s"
  shows "\<forall>(m, ip, e) \<in> set (leases s). pool_start s0 \<le> ip \<and> ip \<le> pool_end s0"
  using assms(2)
proof (induction rule: reachable.induct)
  case start
  show ?case by (simp add: assms(1))
next
  case (call s mac req r s')
  from reachable_pool [OF call.hyps(1)]
  have p: "pool_start s = pool_start s0" "pool_end s = pool_end s0" by simp_all
  from allocate_in_pool [OF _ call.hyps(2)] call.IH show ?case
    by (simp add: p)
qed

text \<open>
  C9: in every state reached from an empty lease table by calls of \<^verbatim>\<open>allocate\<close>, every
  address stored in a lease entry lies within the inclusive pool range, and so does every address
  a further call returns.
\<close>

theorem leases_within_pool:
  assumes "leases s0 = []" and "reachable clock s0 s"
  shows "(\<forall>(m, ip, e) \<in> set (leases s). pool_start s0 \<le> ip \<and> ip \<le> pool_end s0) \<and>
         (\<forall>mac req ip s'. allocate clock s mac req = (Inr (Some ip), s') \<longrightarrow>
            pool_start s0 \<le> ip \<and> ip \<le> pool_end s0)"
proof -
  from reachable_pool [OF assms(2)]
  have p: "pool_start s = pool_start s0" "pool_end s = pool_end s0" by simp_all
  have inv: "\<forall>(m, ip, e) \<in> set (leases s). pool_start s \<le> ip \<and> ip \<le> pool_end s"
    using reachable_in_pool [OF assms] by (simp add: p)
  have "pool_start s0 \<le> ip \<and> ip \<le> pool_end s0"
    if "allocate clock s mac req = (Inr (Some ip), s')" for mac req ip s'
    using allocate_in_pool [OF inv that] by (simp add: p)
  with inv show ?thesis by (simp add: p)
qed

text \<open>Float sums of the sample: small integers are added exactly.\<close>

lemma sample_sums:
  "float_add_int 0 60 = Inr (Finite 60)"
  "float_add_int 2 60 = Inr (Finite 62)"
  "float_add_int 100 60 = Inr (Finite 160)"
  using float_add_int_small [of 0 60] float_add_int_small [of 2 60]
    float_add_int_small [of 100 60]
  by simp_all

lemma allocate_example:
  "allocate example_clock example_pool ''aa'' NoRequest = (Inr (Some 0x0A00000A), example_one)"
  by (simp add: allocate_def allocate_fresh_def allocate_scan_def iter_pool_def is_available_def
      time_time_def bind_lease_def example_pool_def example_one_def example_clock_def upt_rec
      sample_sums)

lemma reachable_example: "reachable example_clock example_pool example_one"
  by (rule reachable.call [OF reachable.start allocate_example])

theorem leases_within_pool_witness:
  "leases example_pool = [] \<and> reachable example_clock example_pool example_one \<and>
   list_all (\<lambda>(m, ip, e). pool_start example_pool \<le> ip \<and> ip \<le> pool_end example_pool)
     (leases example_one) \<and>
   fst (allocate example_clock example_one ''aa'' NoRequest) = Inr (Some 0x0A00000A) \<and>
   pool_start example_pool \<le> 0x0A00000A \<and> 0x0A00000A \<le> pool_end example_pool"
proof -
  have l: "leases example_pool = []" by (simp add: example_pool_def)
  have a: "allocate example_clock example_one ''aa'' NoRequest =
      (Inr (Some 0x0A00000A), example_one\<lparr>ticks := Suc (ticks example_one)\<rparr>)"
    by (rule allocate_existing [where e = "Finite 60"])
      (simp_all add: example_one_def example_clock_def)
  from leases_within_pool [OF l reachable_example]
  have "\<forall>(m, ip, e) \<in> set (leases example_one).
          pool_start example_pool \<le> ip \<and> ip \<le> pool_end example_pool"
    and "pool_start example_pool \<le> 0x0A00000A \<and> 0x0A00000A \<le> pool_end example_pool"
    using a by blast+
  with l reachable_example a show ?thesis by (simp add: list_all_iff)
qed

lemma allocate_keeps_single_holder:
  assumes d: "distinct (map fst (leases s))"
    and inv: "\<forall>t ip. (\<forall>i<ticks s. clock i \<le> t) \<longrightarrow> length (active_holders (leases s) t ip) \<le> 1"
    and a: "allocate clock s mac req = (r, s')"
    and t: "\<forall>i<ticks s'. clock i \<le> t"
  shows "distinct (map fst (leases s')) \<and> length (active_holders (leases s') t ip) \<le> 1"
proof -
  let ?Q = "\<lambda>(_ :: mac, lease_ip, expiry). lease_ip = ip \<and> float_gt expiry t"
  from allocate_effect [OF a] have lt: "ticks s < ticks s'" by simp
  with t have t0: "\<forall>i<ticks s. clock i \<le> t" by auto
  from allocate_effect [OF a]
  consider (same) "leases s' = leases s"
    | (bound) ip0 j expiry where
      "leases s' = AList.update mac (ip0, expiry) (leases s)"
      "j < ticks s'" "\<forall>(m, lip, e) \<in> set (leases s). lip = ip0 \<longrightarrow> \<not> float_gt e (clock j)"
    by blast
  then show ?thesis
  proof cases
    case same
    with d inv t0 show ?thesis by simp
  next
    case bound
    let ?new = "(mac, ip0, expiry)"
    let ?others = "filter (\<lambda>p. fst p \<noteq> mac) (leases s)"
    have cnt: "length (filter ?Q (leases s')) =
               length (filter ?Q ?others) + (if ?Q ?new then 1 else 0)"
      unfolding bound(1) using d by (rule filter_update_distinct)
    have "length (filter ?Q (leases s')) \<le> 1"
    proof (cases "ip = ip0")
      case True
      from t bound(2) have later: "clock j \<le> t" by simp
      have "\<not> ?Q p" if "p \<in> set (leases s)" for p
      proof -
        obtain m lip e where p: "p = (m, lip, e)" by (cases p)
        show ?thesis
        proof (cases "lip = ip")
          case False
          with p show ?thesis by simp
        next
          case eq: True
          with bound(3) that p True have "\<not> float_gt e (clock j)" by auto
          from float_gt_later [OF this later] p show ?thesis by simp
        qed
      qed
      then have "filter ?Q ?others = []" by (auto simp: filter_empty_conv)
      with cnt show ?thesis by simp
    next
      case False
      then have "\<not> ?Q ?new" by simp
      with cnt have "length (filter ?Q (leases s')) = length (filter ?Q ?others)" by simp
      also have "\<dots> \<le> length (filter ?Q (leases s))" by (rule length_filter_filter_le)
      also have "\<dots> \<le> 1" using inv t0 by (simp add: active_holders_def)
      finally show ?thesis .
    qed
    moreover have "distinct (map fst (leases s'))"
      unfolding bound(1) using d by (rule distinct_update)
    ultimately show ?thesis by (simp add: active_holders_def)
  qed
qed

lemma reachable_single_holder:
  assumes "leases s0 = []" and "reachable clock s0 s"
  shows "distinct (map fst (leases s)) \<and>
         (\<forall>t ip. (\<forall>i<ticks s. clock i \<le> t) \<longrightarrow> length (active_holders (leases s) t ip) \<le> 1)"
  using assms(2)
proof (induction rule: reachable.induct)
  case start
  show ?case by (simp add: assms(1) active_holders_def)
next
  case (call s mac req r s')
  from call.IH have d: "distinct (map fst (leases s))"
    and inv: "\<forall>t ip. (\<forall>i<ticks s. clock i \<le> t) \<longrightarrow> length (active_holders (leases s) t ip) \<le> 1"
    by simp_all
  have "length (active_holders (leases s') t ip) \<le> 1" if "\<forall>i<ticks s'. clock i \<le> t" for t ip
    using allocate_keeps_single_holder [OF d inv call.hyps(2) that] by simp
  moreover have "distinct (map fst (leases s'))"
  proof -
    have "\<forall>i<ticks s'. clock i \<le> Max (clock ` {..<ticks s'})" by simp
    from allocate_keeps_single_holder [OF d inv call.hyps(2) this] show ?thesis by simp
  qed
  ultimately show ?case by simp
qed

lemma allocate_stepping_back:
  "allocate stepping_back_clock example_pool ''aa'' NoRequest = (Inr (Some 0x0A00000A), example_one)"
  "allocate stepping_back_clock example_one ''bb'' NoRequest = (Inr (Some 0x0A00000A), example_clash)"
  by (simp_all add: allocate_def allocate_fresh_def allocate_scan_def iter_pool_def is_available_def
      time_time_def bind_lease_def example_pool_def example_one_def example_clash_def
      stepping_back_clock_def upt_rec sample_sums)

text \<open>
  C1, as stated, fails when the clock is set back: \<^verbatim>\<open>time.time()\<close> is the system clock. With
  readings 0, 0, 0, 60, 0 the first call binds 10.0.0.10 to \<open>aa\<close> until 60, the second finds
  that lease expired at the reading 60 and binds the same address to \<open>bb\<close> until 0 + 60, and at
  the next reading, 0, both hold it actively.
\<close>

theorem clock_set_back_counterexample:
  "leases example_pool = [] \<and>
   reachable stepping_back_clock example_pool example_clash \<and>
   stepping_back_clock (ticks example_clash) = 0 \<and>
   active_holders (leases example_clash) (stepping_back_clock (ticks example_clash)) 0x0A00000A =
     [''aa'', ''bb'']"
proof -
  have "reachable stepping_back_clock example_pool example_one"
    by (rule reachable.call [OF reachable.start allocate_stepping_back(1)])
  then have "reachable stepping_back_clock example_pool example_clash"
    by (rule reachable.call [OF _ allocate_stepping_back(2)])
  then show ?thesis
    by (simp add: example_pool_def example_clash_def stepping_back_clock_def active_holders_def)
qed

text \<open>
  C1, amended: in every state reached from an empty lease table by calls of \<^verbatim>\<open>allocate\<close>,
  the table has one entry per hardware address, and at any time \<open>t\<close> not earlier than the clock
  readings taken so far (so at every later reading of a clock that is never set back) at most
  one hardware address holds an active lease, an entry whose expiry is strictly later than \<open>t\<close>,
  on any given address. Each call preserves this (\<open>allocate_keeps_single_holder\<close>), because
  an address is handed out only when every entry naming it has expired.
\<close>

theorem one_holder_per_address:
  assumes "leases s0 = []" and "reachable clock s0 s" and "\<forall>i<ticks s. clock i \<le> t"
  shows "distinct (map fst (leases s)) \<and> length (active_holders (leases s) t ip) \<le> 1"
  using reachable_single_holder [OF assms(1,2)] assms(3) by blast

lemma allocate_reused:
  "allocate fast_clock example_pool ''aa'' NoRequest = (Inr (Some 0x0A00000A), example_one)"
  "allocate fast_clock example_one ''bb'' NoRequest = (Inr (Some 0x0A00000A), example_reused)"
  by (simp_all add: allocate_def allocate_fresh_def allocate_scan_def iter_pool_def is_available_def
      time_time_def bind_lease_def example_pool_def example_one_def example_reused_def
      fast_clock_def upt_rec sample_sums)

theorem one_holder_per_address_witness:
  "leases example_pool = [] \<and> reachable fast_clock example_pool example_reused \<and>
   list_all (\<lambda>i. fast_clock i \<le> 150) [0..<ticks example_reused] \<and>
   map (\<lambda>(m, ip, e). ip) (leases example_reused) = [0x0A00000A, 0x0A00000A] \<and>
   distinct (map fst (leases example_reused)) \<and>
   length (active_holders (leases example_reused) 150 0x0A00000A) \<le> 1 \<and>
   active_holders (leases example_reused) 150 0x0A00000A = [''bb'']"
proof -
  have l: "leases example_pool = []" by (simp add: example_pool_def)
  have "reachable fast_clock example_pool example_one"
    by (rule reachable.call [OF reachable.start allocate_reused(1)])
  then have r: "reachable fast_clock example_pool example_reused"
    by (rule reachable.call [OF _ allocate_reused(2)])
  have t': "list_all (\<lambda>i. fast_clock i \<le> 150) [0..<ticks example_reused]"
    by (simp add: example_reused_def fast_clock_def upt_rec)
  then have t: "\<forall>i<ticks example_reused. fast_clock i \<le> 150"
    by (simp add: list_all_iff)
  have h: "active_holders (leases example_reused) 150 0x0A00000A = [''bb'']"
    "map (\<lambda>(m, ip, e). ip) (leases example_reused) = [0x0A00000A, 0x0A00000A]"
    by (simp_all add: example_reused_def active_holders_def)
  from one_holder_per_address [OF l r t] l r t' h
  show ?thesis by blast
qed

text \<open>
  C2: when \<open>mac\<close> has an entry whose expiry is strictly later than the time the call reads,
  \<^verbatim>\<open>allocate\<close> returns that entry's address whatever was requested and leaves the whole
  manager as it was (only a clock reading is consumed), so the expiry is not extended; and two
  successive calls without a request, both before the expiry, return that same address.
\<close>

theorem active_lease_returned:
  assumes "map_of (leases s) mac = Some (ip, e)" and "float_gt e (clock (ticks s))"
  shows "allocate clock s mac req = (Inr (Some ip), s\<lparr>ticks := Suc (ticks s)\<rparr>) \<and>
         leases (snd (allocate clock s mac req)) = leases s \<and>
         (float_gt e (clock (Suc (ticks s))) \<longrightarrow>
            fst (allocate clock s mac NoRequest) = Inr (Some ip) \<and>
            fst (allocate clock (snd (allocate clock s mac NoRequest)) mac NoRequest) = Inr (Some ip) \<and>
            leases (snd (allocate clock (snd (allocate clock s mac NoRequest)) mac NoRequest)) = leases s)"
proof -
  let ?s1 = "s\<lparr>ticks := Suc (ticks s)\<rparr>"
  have first: "allocate clock s mac r = (Inr (Some ip), ?s1)" for r
    using assms by (rule allocate_existing)
  have second: "allocate clock ?s1 mac NoRequest = (Inr (Some ip), ?s1\<lparr>ticks := Suc (ticks ?s1)\<rparr>)"
    if "float_gt e (clock (Suc (ticks s)))"
    using assms(1) that by (intro allocate_existing [where e = e]) simp_all
  show ?thesis using second by (simp add: first)
qed

theorem active_lease_returned_witness:
  "map_of (leases example_one) ''aa'' = Some (0x0A00000A, Finite 60) \<and>
   float_gt (Finite 60) (example_clock (ticks example_one)) \<and>
   allocate example_clock example_one ''aa'' (Parsed (IPv4Address 0x0A00000C)) =
     (Inr (Some 0x0A00000A), example_one\<lparr>ticks := Suc (ticks example_one)\<rparr>) \<and>
   leases (snd (allocate example_clock example_one ''aa'' (Parsed (IPv4Address 0x0A00000C)))) =
     leases example_one"
proof -
  have m: "map_of (leases example_one) ''aa'' = Some (0x0A00000A, Finite 60)"
    by (simp add: example_one_def)
  have t: "float_gt (Finite 60) (example_clock (ticks example_one))"
    by (simp add: example_one_def example_clock_def)
  from active_lease_returned [where s = example_one and mac = "''aa''" and ip = "0x0A00000A"
      and e = "Finite 60" and clock = example_clock and req = "Parsed (IPv4Address 0x0A00000C)", OF m t] m t
  show ?thesis by blast
qed

lemma float_add_int_error: "float_add_int x n = Inl e \<Longrightarrow> e = OverflowError"
  by (auto simp: float_add_int_def float_of_int_def split: sum.splits pyfloat.splits)

lemma float_add_int_defined:
  assumes "0 \<le> n" and "n < 2 ^ 53"
  shows "\<exists>expiry. float_add_int x n = Inr expiry"
proof -
  from assms have "round_double (of_int n) = Finite (of_int n)" by (rule round_double_int)
  then show ?thesis by (simp add: float_add_int_def float_of_int_def)
qed

text \<open>
  With no active lease for \<open>mac\<close> and the requested address within bounds and free at the
  availability check, the call comes down to storing the lease.
\<close>

lemma allocate_requested_free:
  assumes "case map_of (leases s) mac of None \<Rightarrow> True
           | Some (ip, e) \<Rightarrow> \<not> float_gt e (clock (ticks s))"
    and "pool_start s \<le> a" and "a \<le> pool_end s"
    and "t \<le> clock (Suc (ticks s))"
    and "\<forall>(m, ip, e) \<in> set (leases s). ip = a \<longrightarrow> \<not> float_gt e t"
  shows "allocate clock s mac (Parsed (IPv4Address a)) =
         bind_lease mac a (clock (ticks s)) (s\<lparr>ticks := Suc (Suc (ticks s))\<rparr>)"
proof -
  let ?s1 = "s\<lparr>ticks := Suc (ticks s)\<rparr>"
  have free: "\<forall>(m, ip, e) \<in> set (leases ?s1). ip = a \<longrightarrow> \<not> float_gt e (clock (ticks ?s1))"
  proof (clarify)
    fix m ip e
    assume "(m, a, e) \<in> set (leases ?s1)" and gt: "float_gt e (clock (ticks ?s1))"
    with assms(5) have "\<not> float_gt e t" by auto
    from float_gt_later [OF this assms(4)] gt show False by simp
  qed
  have fresh: "allocate_fresh clock mac (clock (ticks s)) (Parsed (IPv4Address a)) ?s1 =
      bind_lease mac a (clock (ticks s)) (?s1\<lparr>ticks := Suc (ticks ?s1)\<rparr>)"
    using assms(2,3) free unfolding allocate_fresh_def is_available_eq by simp
  have "allocate clock s mac (Parsed (IPv4Address a)) =
      allocate_fresh clock mac (clock (ticks s)) (Parsed (IPv4Address a)) ?s1"
    using assms(1) by (auto simp: allocate_def time_time_def split: option.splits)
  with fresh show ?thesis by simp
qed

text \<open>
  C3, as stated, fails for a lease duration that no float can hold: the sum
  \<^verbatim>\<open>now + self.lease_time\<close> raises \<^verbatim>\<open>OverflowError\<close>, which \<^verbatim>\<open>except ValueError\<close> does not
  catch, and nothing is bound. Here the table is empty and 10.0.0.11 is within the pool.
\<close>

theorem lease_duration_overflow_counterexample:
  "map_of (leases endless_pool) ''aa'' = None \<and>
   pool_start endless_pool \<le> 0x0A00000B \<and> 0x0A00000B \<le> pool_end endless_pool \<and>
   leases endless_pool = [] \<and> lease_time endless_pool = 2 ^ 1024 \<and>
   fst (allocate example_clock endless_pool ''aa'' (Parsed (IPv4Address 0x0A00000B))) =
     Inl OverflowError \<and>
   leases (snd (allocate example_clock endless_pool ''aa'' (Parsed (IPv4Address 0x0A00000B)))) = []"
proof -
  have l: "leases endless_pool = []" "map_of (leases endless_pool) ''aa'' = None"
    and b: "pool_start endless_pool \<le> 0x0A00000B" "0x0A00000B \<le> pool_end endless_pool"
    and d: "lease_time endless_pool = 2 ^ 1024"
    by (simp_all add: endless_pool_def)
  have ov: "float_add_int x (lease_time endless_pool) = Inl OverflowError" for x
    by (rule float_add_int_overflow) (simp only: d order_refl)
  have "allocate example_clock endless_pool ''aa'' (Parsed (IPv4Address 0x0A00000B)) =
        bind_lease ''aa'' 0x0A00000B (example_clock (ticks endless_pool))
          (endless_pool\<lparr>ticks := Suc (Suc (ticks endless_pool))\<rparr>)"
    by (rule allocate_requested_free [where t = "example_clock (Suc (ticks endless_pool))"])
      (simp_all add: l b)
  then have "allocate example_clock endless_pool ''aa'' (Parsed (IPv4Address 0x0A00000B)) =
        (Inl OverflowError, endless_pool\<lparr>ticks := Suc (Suc (ticks endless_pool))\<rparr>)"
    by (simp add: bind_lease_def ov)
  with l b d show ?thesis by simp
qed

text \<open>
  C3, amended: if \<open>mac\<close> has no entry or an expired one, the requested string parses to an IPv4
  address \<open>a\<close> within the pool bounds, and at some time \<open>t\<close> not later than the reading taken
  by the availability check every entry naming \<open>a\<close> has expired, then \<^verbatim>\<open>allocate\<close> binds
  \<open>mac\<close> to \<open>a\<close> with the float sum now + lease duration as expiry (now being the reading taken
  at the start of the call) and returns \<open>a\<close>, unless that sum raises; it raises only
  \<^verbatim>\<open>OverflowError\<close>, which then propagates with nothing bound, and it does not raise for a
  lease duration from 0 up to \<open>2\<^sup>5\<^sup>3\<close>.
\<close>

theorem requested_address_honored:
  assumes "case map_of (leases s) mac of None \<Rightarrow> True
           | Some (ip, e) \<Rightarrow> \<not> float_gt e (clock (ticks s))"
    and "pool_start s \<le> a" and "a \<le> pool_end s"
    and "t \<le> clock (Suc (ticks s))"
    and "\<forall>(m, ip, e) \<in> set (leases s). ip = a \<longrightarrow> \<not> float_gt e t"
  shows "allocate clock s mac (Parsed (IPv4Address a)) =
           (case float_add_int (clock (ticks s)) (lease_time s) of
              Inl e \<Rightarrow> (Inl e, s\<lparr>ticks := Suc (Suc (ticks s))\<rparr>)
            | Inr expiry \<Rightarrow>
                (Inr (Some a),
                 s\<lparr>leases := AList.update mac (a, expiry) (leases s),
                   ticks := Suc (Suc (ticks s))\<rparr>)) \<and>
         (\<forall>expiry. float_add_int (clock (ticks s)) (lease_time s) = Inr expiry \<longrightarrow>
            map_of (leases (snd (allocate clock s mac (Parsed (IPv4Address a))))) mac =
              Some (a, expiry)) \<and>
         (\<forall>e. float_add_int (clock (ticks s)) (lease_time s) = Inl e \<longrightarrow> e = OverflowError) \<and>
         (0 \<le> lease_time s \<and> lease_time s < 2 ^ 53 \<longrightarrow>
            fst (allocate clock s mac (Parsed (IPv4Address a))) = Inr (Some a))"
proof -
  let ?sum = "float_add_int (clock (ticks s)) (lease_time s)"
  have eq: "allocate clock s mac (Parsed (IPv4Address a)) =
      bind_lease mac a (clock (ticks s)) (s\<lparr>ticks := Suc (Suc (ticks s))\<rparr>)"
    using assms by (rule allocate_requested_free)
  have main: "allocate clock s mac (Parsed (IPv4Address a)) =
           (case ?sum of
              Inl e \<Rightarrow> (Inl e, s\<lparr>ticks := Suc (Suc (ticks s))\<rparr>)
            | Inr expiry \<Rightarrow>
                (Inr (Some a),
                 s\<lparr>leases := AList.update mac (a, expiry) (leases s),
                   ticks := Suc (Suc (ticks s))\<rparr>))"
    unfolding eq by (cases ?sum) (simp_all add: bind_lease_def)
  have stored: "map_of (leases (snd (allocate clock s mac (Parsed (IPv4Address a))))) mac =
      Some (a, expiry)" if "?sum = Inr expiry" for expiry
    unfolding main using that by (simp add: update_conv')
  have err: "e = OverflowError" if "?sum = Inl e" for e
    using that by (rule float_add_int_error)
  have ok: "fst (allocate clock s mac (Parsed (IPv4Address a))) = Inr (Some a)"
    if "0 \<le> lease_time s \<and> lease_time s < 2 ^ 53"
  proof -
    from that float_add_int_defined [of "lease_time s" "clock (ticks s)"]
    obtain expiry where "?sum = Inr expiry" by blast
    then show ?thesis unfolding main by simp
  qed
  from main stored err ok show ?thesis by blast
qed

theorem requested_address_honored_witness:
  "(case map_of (leases example_one) ''bb'' of None \<Rightarrow> True
    | Some (ip, e) \<Rightarrow> \<not> float_gt e (example_clock (ticks example_one))) \<and>
   pool_start example_one \<le> 0x0A00000C \<and> 0x0A00000C \<le> pool_end example_one \<and>
   3 \<le> example_clock (Suc (ticks example_one)) \<and>
   list_all (\<lambda>(m, ip, e). ip \<noteq> 0x0A00000C \<or> \<not> float_gt e 3) (leases example_one) \<and>
   float_add_int (example_clock (ticks example_one)) (lease_time example_one) = Inr (Finite 62) \<and>
   allocate example_clock example_one ''bb'' (Parsed (IPv4Address 0x0A00000C)) =
     (Inr (Some 0x0A00000C),
      example_one\<lparr>leases := [(''aa'', 0x0A00000A, Finite 60), (''bb'', 0x0A00000C, Finite 62)],
        ticks := 4\<rparr>)"
  using requested_address_honored [where s = example_one and mac = "''bb''"
      and clock = example_clock and a = "0x0A00000C" and t = 3]
  by (simp add: example_one_def example_clock_def sample_sums)

lemma update_new_key: "k \<notin> fst ` set al \<Longrightarrow> AList.update k v al = al @ [(k, v)]"
  by (induction al) auto

text \<open>The pool that \<^verbatim>\<open>_iter_pool\<close> yields is \<open>pool_start\<close>, \<open>pool_start + 1\<close>, and so on.\<close>

lemma iter_pool_eq: "iter_pool s = map (pool_address s) [0..<pool_size s]"
proof -
  let ?a = "unat (pool_start s)" and ?b = "unat (pool_end s)"
  have upt: "[?a..<Suc ?b] = map (\<lambda>i. i + ?a) [0..<Suc ?b - ?a]"
  proof (cases "?a \<le> Suc ?b")
    case True
    then show ?thesis by (simp add: map_add_upt)
  next
    case False
    then show ?thesis by simp
  qed
  have "word_of_nat (i + ?a) = pool_address s i" for i
    by (simp add: pool_address_def)
  then have "map word_of_nat (map (\<lambda>i. i + ?a) [0..<Suc ?b - ?a]) =
             map (pool_address s) [0..<Suc ?b - ?a]"
    by simp
  then show ?thesis unfolding iter_pool_def pool_size_def upt [symmetric] .
qed

lemma iter_pool_sorted: "sorted_wrt (<) (iter_pool s)"
proof -
  have "sorted_wrt (\<lambda>x y. (word_of_nat x :: ipv4) < word_of_nat y)
          [unat (pool_start s) ..< Suc (unat (pool_end s))]"
  proof (rule sorted_wrt_mono_rel [where P = "(<)"])
    fix x y
    assume x: "x \<in> set [unat (pool_start s) ..< Suc (unat (pool_end s))]"
      and y: "y \<in> set [unat (pool_start s) ..< Suc (unat (pool_end s))]" and "x < y"
    from x have "x \<le> unat (pool_end s)" by auto
    then have "unat (word_of_nat x :: ipv4) = x" by (rule le_unat_uoi)
    moreover from y have "y \<le> unat (pool_end s)" by auto
    then have "unat (word_of_nat y :: ipv4) = y" by (rule le_unat_uoi)
    ultimately show "(word_of_nat x :: ipv4) < word_of_nat y"
      using \<open>x < y\<close> by (simp add: word_less_nat_alt)
  next
    show "sorted_wrt (<) [unat (pool_start s) ..< Suc (unat (pool_end s))]"
      by (rule sorted_wrt_upt)
  qed
  then show ?thesis by (simp add: iter_pool_def sorted_wrt_map)
qed

lemma iter_pool_distinct: "distinct (iter_pool s)"
  using iter_pool_sorted [of s] by (simp add: strict_sorted_iff)

text \<open>A scan passes over addresses that are held actively at the readings it takes.\<close>

lemma scan_pool_skip:
  assumes "set busy \<subseteq> (\<lambda>p. fst (snd p)) ` set (leases s)"
    and "\<forall>(m, lip, e) \<in> set (leases s).
           \<forall>j. ticks s \<le> j \<and> j < ticks s + length busy \<longrightarrow> float_gt e (clock j)"
  shows "scan_pool clock mac now (busy @ rest) s =
         scan_pool clock mac now rest (s\<lparr>ticks := ticks s + length busy\<rparr>)"
  using assms
proof (induction busy arbitrary: s)
  case Nil
  show ?case by simp
next
  case (Cons ip busy)
  let ?s1 = "s\<lparr>ticks := Suc (ticks s)\<rparr>"
  from Cons.prems(1) obtain m e where me: "(m, ip, e) \<in> set (leases s)" by force
  with Cons.prems(2) have "float_gt e (clock (ticks s))" by fastforce
  with me have "\<not> (\<forall>(m, lip, e) \<in> set (leases s). lip = ip \<longrightarrow> \<not> float_gt e (clock (ticks s)))"
    by fastforce
  then have "is_available clock s ip = (False, ?s1)"
    unfolding is_available_eq by (rule_tac prod_eqI) simp_all
  then have "scan_pool clock mac now ((ip # busy) @ rest) s = scan_pool clock mac now (busy @ rest) ?s1"
    by simp
  also have "\<dots> = scan_pool clock mac now rest (?s1\<lparr>ticks := ticks ?s1 + length busy\<rparr>)"
  proof (rule Cons.IH)
    show "set busy \<subseteq> (\<lambda>p. fst (snd p)) ` set (leases ?s1)" using Cons.prems(1) by simp
    show "\<forall>(m, lip, e) \<in> set (leases ?s1).
            \<forall>j. ticks ?s1 \<le> j \<and> j < ticks ?s1 + length busy \<longrightarrow> float_gt e (clock j)"
      using Cons.prems(2) by fastforce
  qed
  finally show ?case by simp
qed

lemma scan_pool_hit:
  assumes "ip \<notin> (\<lambda>p. fst (snd p)) ` set (leases s)"
  shows "scan_pool clock mac now (ip # rest) s =
         bind_lease mac ip now (s\<lparr>ticks := Suc (ticks s)\<rparr>)"
proof -
  from assms have "\<forall>(m, lip, e) \<in> set (leases s). lip = ip \<longrightarrow> \<not> float_gt e (clock (ticks s))"
    by force
  then have "is_available clock s ip = (True, s\<lparr>ticks := Suc (ticks s)\<rparr>)"
    unfolding is_available_eq by (rule_tac prod_eqI) simp_all
  then show ?thesis by simp
qed

lemma allocate_new_mac:
  assumes "mac \<notin> fst ` set (leases s)"
  shows "allocate clock s mac NoRequest =
         allocate_scan clock mac (clock (ticks s)) (s\<lparr>ticks := Suc (ticks s)\<rparr>)"
proof -
  from assms have "map_of (leases s) mac = None" by (simp add: map_of_eq_None_iff)
  then show ?thesis by (simp add: allocate_def time_time_def allocate_fresh_def)
qed

lemma allocate_next_free:
  assumes mac: "mac \<notin> fst ` set (leases s)"
    and pool: "iter_pool s = busy @ ip # rest"
    and busy: "set busy \<subseteq> (\<lambda>p. fst (snd p)) ` set (leases s)"
    and free: "ip \<notin> (\<lambda>p. fst (snd p)) ` set (leases s)"
    and live: "\<forall>(m, lip, e) \<in> set (leases s).
                 \<forall>j. ticks s \<le> j \<and> j < ticks s + length busy + 2 \<longrightarrow> float_gt e (clock j)"
    and sum: "float_add_int (clock (ticks s)) (lease_time s) = Inr expiry"
  shows "allocate clock s mac NoRequest =
         (Inr (Some ip),
          s\<lparr>leases := leases s @ [(mac, ip, expiry)], ticks := ticks s + length busy + 2\<rparr>)"
proof -
  let ?s1 = "s\<lparr>ticks := Suc (ticks s)\<rparr>"
  let ?now = "clock (ticks s)"
  let ?s2 = "?s1\<lparr>ticks := ticks ?s1 + length busy\<rparr>"
  have p1: "iter_pool ?s1 = busy @ ip # rest" using pool by (simp add: iter_pool_def)
  have "scan_pool clock mac ?now (busy @ ip # rest) ?s1 = scan_pool clock mac ?now (ip # rest) ?s2"
  proof (rule scan_pool_skip)
    show "set busy \<subseteq> (\<lambda>p. fst (snd p)) ` set (leases ?s1)" using busy by simp
    show "\<forall>(m, lip, e) \<in> set (leases ?s1).
            \<forall>j. ticks ?s1 \<le> j \<and> j < ticks ?s1 + length busy \<longrightarrow> float_gt e (clock j)"
      using live by fastforce
  qed
  also have "\<dots> = bind_lease mac ip ?now (?s2\<lparr>ticks := Suc (ticks ?s2)\<rparr>)"
    by (rule scan_pool_hit) (use free in simp)
  finally have "scan_pool clock mac ?now (iter_pool ?s1) ?s1 =
      (Inr (Some ip),
       s\<lparr>leases := leases s @ [(mac, ip, expiry)], ticks := ticks s + length busy + 2\<rparr>)"
    using mac sum by (simp add: p1 bind_lease_def update_new_key)
  then show ?thesis
    by (simp add: allocate_new_mac [OF mac] allocate_scan_def)
qed

lemma allocate_exhausted:
  assumes mac: "mac \<notin> fst ` set (leases s)"
    and busy: "set (iter_pool s) \<subseteq> (\<lambda>p. fst (snd p)) ` set (leases s)"
    and live: "\<forall>(m, lip, e) \<in> set (leases s).
                 \<forall>j. ticks s \<le> j \<and> j < ticks s + length (iter_pool s) + 1 \<longrightarrow>
                   float_gt e (clock j)"
  shows "allocate clock s mac NoRequest =
         (Inr None, s\<lparr>ticks := ticks s + length (iter_pool s) + 1\<rparr>)"
proof -
  let ?s1 = "s\<lparr>ticks := Suc (ticks s)\<rparr>"
  let ?now = "clock (ticks s)"
  have p1: "iter_pool ?s1 = iter_pool s" by (simp add: iter_pool_def)
  have "scan_pool clock mac ?now (iter_pool s @ []) ?s1 =
        scan_pool clock mac ?now [] (?s1\<lparr>ticks := ticks ?s1 + length (iter_pool s)\<rparr>)"
  proof (rule scan_pool_skip)
    show "set (iter_pool s) \<subseteq> (\<lambda>p. fst (snd p)) ` set (leases ?s1)" using busy by simp
    show "\<forall>(m, lip, e) \<in> set (leases ?s1).
            \<forall>j. ticks ?s1 \<le> j \<and> j < ticks ?s1 + length (iter_pool s) \<longrightarrow> float_gt e (clock j)"
      using live by fastforce
  qed
  then have "scan_pool clock mac ?now (iter_pool ?s1) ?s1 =
      (Inr None, s\<lparr>ticks := ticks s + length (iter_pool s) + 1\<rparr>)"
    by (simp add: p1)
  then show ?thesis
    by (simp add: allocate_new_mac [OF mac] allocate_scan_def)
qed

text \<open>
  Successive calls by new hardware addresses while no lease expires: with the addresses \<open>busy\<close>
  taken and \<open>free\<close> left, the calls take the free addresses in order and the last one finds
  none. The \<open>i\<close>-th of them starts at reading \<open>ticks s + (\<Sum>k<i. length busy + k + 2)\<close>.
\<close>

lemma allocate_all_fill:
  assumes "\<forall>i j. lo \<le> i \<and> i < T \<and> lo \<le> j \<and> j < T \<longrightarrow>
             (\<exists>e. float_add_int (clock i) (lease_time s) = Inr e \<and> float_gt e (clock j))"
    and "lo \<le> ticks s"
    and "ticks s + (\<Sum>k<length free. length busy + k + 2) + length busy + length free + 1 \<le> T"
    and "iter_pool s = busy @ free"
    and "distinct (busy @ free)"
    and "map (\<lambda>p. fst (snd p)) (leases s) = busy"
    and "\<forall>(m, ip, e) \<in> set (leases s).
           \<exists>k. lo \<le> k \<and> k < T \<and> float_add_int (clock k) (lease_time s) = Inr e"
    and "distinct (map fst (leases s) @ macs)"
    and "length macs = Suc (length free)"
  shows "\<exists>s'. allocate_all clock s macs = (map (Inr \<circ> Some) free @ [Inr None], s') \<and>
           map (\<lambda>(m, ip, e). (m, ip, Inr e :: error + pyfloat)) (leases s') =
             map (\<lambda>(m, ip, e). (m, ip, Inr e)) (leases s) @
             map (\<lambda>i. (macs ! i, free ! i,
                    float_add_int (clock (ticks s + (\<Sum>k<i. length busy + k + 2))) (lease_time s)))
               [0..<length free] \<and>
           ticks s' = ticks s + (\<Sum>k<length free. length busy + k + 2)
               + length busy + length free + 1"
  using assms
proof (induction free arbitrary: s busy macs)
  case Nil
  from Nil.prems(9) obtain mac where macs: "macs = [mac]"
    by (cases macs) simp_all
  from Nil.prems(8) macs have new: "mac \<notin> fst ` set (leases s)" by auto
  have pool: "iter_pool s = busy" using Nil.prems(4) by simp
  have live: "\<forall>(m, lip, e) \<in> set (leases s).
      \<forall>j. ticks s \<le> j \<and> j < ticks s + length (iter_pool s) + 1 \<longrightarrow> float_gt e (clock j)"
  proof (clarify)
    fix m lip e j
    assume "(m, lip, e) \<in> set (leases s)" and j: "ticks s \<le> j" "j < ticks s + length (iter_pool s) + 1"
    with Nil.prems(7) obtain k where k: "lo \<le> k" "k < T"
      "float_add_int (clock k) (lease_time s) = Inr e"
      by blast
    from j Nil.prems(2,3) pool have "lo \<le> j" "j < T" by simp_all
    with Nil.prems(1) k show "float_gt e (clock j)" by fastforce
  qed
  have "set (iter_pool s) \<subseteq> (\<lambda>p. fst (snd p)) ` set (leases s)"
    using Nil.prems(6) pool by (metis list.set_map order_refl)
  from allocate_exhausted [OF new this live]
  have "allocate_all clock s macs = ([Inr None], s\<lparr>ticks := ticks s + length (iter_pool s) + 1\<rparr>)"
    by (simp add: macs)
  with pool show ?case by simp
next
  case (Cons ip free)
  from Cons.prems(9) obtain mac macs' where macs: "macs = mac # macs'"
    and len: "length macs' = Suc (length free)"
    by (cases macs) simp_all
  let ?L = "lease_time s"
  let ?b = "length busy"
  have sum: "(\<Sum>k<length (ip # free). ?b + k + 2) =
             ?b + 2 + (\<Sum>k<length free. length (busy @ [ip]) + k + 2)"
    by (simp add: sum.lessThan_Suc_shift del: sum.lessThan_Suc)
  from Cons.prems(3) have now: "ticks s < T" and enough: "ticks s + ?b + 2 \<le> T"
    unfolding sum by simp_all
  from Cons.prems(1,2) now obtain e0 where e0: "float_add_int (clock (ticks s)) ?L = Inr e0"
    by blast
  let ?s1 = "s\<lparr>leases := leases s @ [(mac, ip, e0)], ticks := ticks s + ?b + 2\<rparr>"
  from Cons.prems(8) macs have new: "mac \<notin> fst ` set (leases s)" by auto
  have live: "\<forall>(m, lip, e) \<in> set (leases s).
      \<forall>j. ticks s \<le> j \<and> j < ticks s + ?b + 2 \<longrightarrow> float_gt e (clock j)"
  proof (clarify)
    fix m lip e j
    assume "(m, lip, e) \<in> set (leases s)" and j: "ticks s \<le> j" "j < ticks s + ?b + 2"
    with Cons.prems(7) obtain k where k: "lo \<le> k" "k < T" "float_add_int (clock k) ?L = Inr e"
      by blast
    from j Cons.prems(2) enough have "lo \<le> j" "j < T" by simp_all
    with Cons.prems(1) k show "float_gt e (clock j)" by fastforce
  qed
  have leased: "(\<lambda>p. fst (snd p)) ` set (leases s) = set busy"
    using Cons.prems(6) by (metis list.set_map)
  have free: "ip \<notin> (\<lambda>p. fst (snd p)) ` set (leases s)"
    using Cons.prems(5) leased by simp
  have sub: "set busy \<subseteq> (\<lambda>p. fst (snd p)) ` set (leases s)"
    unfolding leased by (rule order_refl)
  have step: "allocate clock s mac NoRequest = (Inr (Some ip), ?s1)"
    using new Cons.prems(4) sub free live e0 by (rule allocate_next_free)
  have "\<exists>s'. allocate_all clock ?s1 macs' = (map (Inr \<circ> Some) free @ [Inr None], s') \<and>
           map (\<lambda>(m, ip, e). (m, ip, Inr e :: error + pyfloat)) (leases s') =
             map (\<lambda>(m, ip, e). (m, ip, Inr e)) (leases ?s1) @
             map (\<lambda>i. (macs' ! i, free ! i,
                    float_add_int (clock (ticks ?s1 + (\<Sum>k<i. length (busy @ [ip]) + k + 2)))
                      (lease_time ?s1)))
               [0..<length free] \<and>
           ticks s' = ticks ?s1 + (\<Sum>k<length free. length (busy @ [ip]) + k + 2)
               + length (busy @ [ip]) + length free + 1"
  proof (rule Cons.IH [where busy = "busy @ [ip]"])
    show "\<forall>i j. lo \<le> i \<and> i < T \<and> lo \<le> j \<and> j < T \<longrightarrow>
             (\<exists>e. float_add_int (clock i) (lease_time ?s1) = Inr e \<and> float_gt e (clock j))"
      using Cons.prems(1) by simp
    show "lo \<le> ticks ?s1" using Cons.prems(2) by simp
    show "ticks ?s1 + (\<Sum>k<length free. length (busy @ [ip]) + k + 2)
           + length (busy @ [ip]) + length free + 1 \<le> T"
      using Cons.prems(3) unfolding sum by simp
    show "iter_pool ?s1 = (busy @ [ip]) @ free"
      using Cons.prems(4) by (simp add: iter_pool_def)
    show "distinct ((busy @ [ip]) @ free)" using Cons.prems(5) by simp
    show "map (\<lambda>p. fst (snd p)) (leases ?s1) = busy @ [ip]" using Cons.prems(6) by simp
    show "\<forall>(m, ip, e) \<in> set (leases ?s1).
            \<exists>k. lo \<le> k \<and> k < T \<and> float_add_int (clock k) (lease_time ?s1) = Inr e"
      using Cons.prems(2,7) now e0 by auto
    show "distinct (map fst (leases ?s1) @ macs')" using Cons.prems(8) macs by auto
    show "length macs' = Suc (length free)" by (rule len)
  qed
  then obtain s' where
    rest: "allocate_all clock ?s1 macs' = (map (Inr \<circ> Some) free @ [Inr None], s')" and
    tbl: "map (\<lambda>(m, ip, e). (m, ip, Inr e :: error + pyfloat)) (leases s') =
             map (\<lambda>(m, ip, e). (m, ip, Inr e)) (leases ?s1) @
             map (\<lambda>i. (macs' ! i, free ! i,
                    float_add_int (clock (ticks ?s1 + (\<Sum>k<i. length (busy @ [ip]) + k + 2)))
                      (lease_time ?s1)))
               [0..<length free]" and
    tk: "ticks s' = ticks ?s1 + (\<Sum>k<length free. length (busy @ [ip]) + k + 2)
               + length (busy @ [ip]) + length free + 1"
    by blast
  have "allocate_all clock s macs = (Inr (Some ip) # (map (Inr \<circ> Some) free @ [Inr None]), s')"
    by (simp only: macs allocate_all.simps step Let_def prod.case rest)
  then have "allocate_all clock s macs = (map (Inr \<circ> Some) (ip # free) @ [Inr None], s')"
    by simp
  moreover have "map (\<lambda>(m, ip, e). (m, ip, Inr e :: error + pyfloat)) (leases s') =
             map (\<lambda>(m, ip, e). (m, ip, Inr e)) (leases s) @
             map (\<lambda>i. (macs ! i, (ip # free) ! i,
                    float_add_int (clock (ticks s + (\<Sum>k<i. ?b + k + 2))) ?L))
               [0..<length (ip # free)]"
  proof -
    have idx: "ticks ?s1 + (\<Sum>k<i. length (busy @ [ip]) + k + 2) =
               ticks s + (\<Sum>k<Suc i. ?b + k + 2)" for i
      by (simp add: sum.lessThan_Suc_shift del: sum.lessThan_Suc)
    have "map (\<lambda>i. (macs ! i, (ip # free) ! i,
                    float_add_int (clock (ticks s + (\<Sum>k<i. ?b + k + 2))) ?L))
               [0..<length (ip # free)] =
          (mac, ip, float_add_int (clock (ticks s)) ?L) #
          map (\<lambda>i. (macs' ! i, free ! i,
                    float_add_int (clock (ticks s + (\<Sum>k<Suc i. ?b + k + 2))) ?L))
               [0..<length free]"
      by (simp add: map_upt_Suc macs del: upt_Suc sum.lessThan_Suc)
    also have "\<dots> = (mac, ip, Inr e0) #
          map (\<lambda>i. (macs' ! i, free ! i,
                    float_add_int (clock (ticks ?s1 + (\<Sum>k<i. length (busy @ [ip]) + k + 2)))
                      (lease_time ?s1)))
               [0..<length free]"
      unfolding idx e0 by simp
    finally show ?thesis unfolding tbl by simp
  qed
  moreover have "ticks s' = ticks s + (\<Sum>k<length (ip # free). ?b + k + 2)
               + ?b + length (ip # free) + 1"
    using tk unfolding sum by simp
  ultimately show ?case by blast
qed

text \<open>
  C4: a pool from \<open>pool_start\<close> to \<open>pool_end\<close> holds \<open>N = pool_size\<close> addresses,
  \<open>pool_start + i\<close> for \<open>i < N\<close>, strictly ascending and within the bounds. Starting from an
  empty lease table, \<open>N + 1\<close> calls without a requested address from distinct hardware
  addresses take the clock readings up to \<open>call_start N + N + 1\<close>. If each of these readings is
  earlier than the expiry a lease granted at any of them receives (all calls before any expiry),
  the \<open>i\<close>-th call returns \<open>pool_start + i\<close>, the lowest address without an active holder,
  and binds it to its caller with the float sum of its own first reading and the lease duration
  as expiry; the last call returns none.
\<close>

theorem pool_exhaustion:
  assumes "leases s = []" and "distinct macs" and "length macs = Suc (pool_size s)"
    and "\<forall>i j. ticks s \<le> i \<and> i < call_start s (pool_size s) + pool_size s + 1 \<and>
               ticks s \<le> j \<and> j < call_start s (pool_size s) + pool_size s + 1 \<longrightarrow>
           (\<exists>e. float_add_int (clock i) (lease_time s) = Inr e \<and> float_gt e (clock j))"
  shows "fst (allocate_all clock s macs) =
           map (\<lambda>i. Inr (Some (pool_address s i))) [0..<pool_size s] @ [Inr None] \<and>
         sorted_wrt (<) (map (pool_address s) [0..<pool_size s]) \<and>
         distinct (map (pool_address s) [0..<pool_size s]) \<and>
         (\<forall>i<pool_size s. pool_start s \<le> pool_address s i \<and> pool_address s i \<le> pool_end s) \<and>
         map (\<lambda>(m, ip, e). (m, ip, Inr e :: error + pyfloat))
             (leases (snd (allocate_all clock s macs))) =
           map (\<lambda>i. (macs ! i, pool_address s i,
                  float_add_int (clock (call_start s i)) (lease_time s)))
             [0..<pool_size s] \<and>
         ticks (snd (allocate_all clock s macs)) = call_start s (pool_size s) + pool_size s + 1"
proof -
  let ?N = "pool_size s"
  let ?pool = "map (pool_address s) [0..<?N]"
  have pool: "iter_pool s = ?pool" by (rule iter_pool_eq)
  have n: "length (iter_pool s) = ?N" by (simp add: pool)
  have "\<exists>s'. allocate_all clock s macs = (map (Inr \<circ> Some) (iter_pool s) @ [Inr None], s') \<and>
           map (\<lambda>(m, ip, e). (m, ip, Inr e :: error + pyfloat)) (leases s') =
             map (\<lambda>(m, ip, e). (m, ip, Inr e)) (leases s) @
             map (\<lambda>i. (macs ! i, iter_pool s ! i,
                    float_add_int
                      (clock (ticks s + (\<Sum>k<i. length ([] :: ipv4 list) + k + 2))) (lease_time s)))
               [0..<length (iter_pool s)] \<and>
           ticks s' = ticks s + (\<Sum>k<length (iter_pool s). length ([] :: ipv4 list) + k + 2)
               + length ([] :: ipv4 list) + length (iter_pool s) + 1"
  proof (rule allocate_all_fill [where busy = "[]" and lo = "ticks s"
        and T = "call_start s ?N + ?N + 1"])
    show "\<forall>i j. ticks s \<le> i \<and> i < call_start s ?N + ?N + 1 \<and>
               ticks s \<le> j \<and> j < call_start s ?N + ?N + 1 \<longrightarrow>
           (\<exists>e. float_add_int (clock i) (lease_time s) = Inr e \<and> float_gt e (clock j))"
      by (rule assms(4))
    show "distinct ([] @ iter_pool s)" by (simp add: iter_pool_distinct)
    show "distinct (map fst (leases s) @ macs)" by (simp add: assms(1,2))
    show "ticks s + (\<Sum>k<length (iter_pool s). length ([] :: ipv4 list) + k + 2)
           + length ([] :: ipv4 list) + length (iter_pool s) + 1 \<le> call_start s ?N + ?N + 1"
      by (simp add: n call_start_def)
    show "length macs = Suc (length (iter_pool s))" by (simp add: n assms(3))
  qed (simp_all add: assms(1))
  then obtain s' where run: "allocate_all clock s macs = (map (Inr \<circ> Some) (iter_pool s) @ [Inr None], s')"
    and tbl: "map (\<lambda>(m, ip, e). (m, ip, Inr e :: error + pyfloat)) (leases s') =
             map (\<lambda>i. (macs ! i, iter_pool s ! i,
                    float_add_int (clock (ticks s + (\<Sum>k<i. k + 2))) (lease_time s)))
               [0..<length (iter_pool s)]"
    and tk: "ticks s' = ticks s + (\<Sum>k<length (iter_pool s). k + 2) + length (iter_pool s) + 1"
    by (auto simp: assms(1))
  have "fst (allocate_all clock s macs) = map (\<lambda>i. Inr (Some (pool_address s i))) [0..<?N] @ [Inr None]"
    by (simp add: run pool comp_def)
  moreover have "sorted_wrt (<) ?pool" "distinct ?pool"
    using iter_pool_sorted [of s] iter_pool_distinct [of s] by (simp_all only: pool)
  moreover have "pool_start s \<le> pool_address s i \<and> pool_address s i \<le> pool_end s" if "i < ?N" for i
  proof -
    from that have "pool_address s i \<in> set (iter_pool s)" by (simp add: pool)
    then show ?thesis by (rule in_iter_pool)
  qed
  moreover have "map (\<lambda>(m, ip, e). (m, ip, Inr e :: error + pyfloat)) (leases s') =
      map (\<lambda>i. (macs ! i, pool_address s i, float_add_int (clock (call_start s i)) (lease_time s)))
        [0..<?N]"
    unfolding tbl n by (rule map_cong) (simp_all add: pool call_start_def)
  moreover have "ticks s' = call_start s ?N + ?N + 1"
    using tk by (simp add: n call_start_def)
  ultimately show ?thesis by (simp add: run)
qed

theorem pool_exhaustion_witness:
  "leases example_pool = [] \<and> distinct [''aa'', ''bb'', ''cc'', ''dd''] \<and>
   length [''aa'', ''bb'', ''cc'', ''dd''] = Suc (pool_size example_pool) \<and>
   pool_size example_pool = 3 \<and>
   call_start example_pool (pool_size example_pool) + pool_size example_pool + 1 = 13 \<and>
   list_all (\<lambda>i. list_all (\<lambda>j.
       case float_add_int (example_clock i) (lease_time example_pool) of
         Inl err \<Rightarrow> False
       | Inr e \<Rightarrow> float_gt e (example_clock j)) [0..<13]) [0..<13] \<and>
   fst (allocate_all example_clock example_pool [''aa'', ''bb'', ''cc'', ''dd'']) =
     [Inr (Some 0x0A00000A), Inr (Some 0x0A00000B), Inr (Some 0x0A00000C), Inr None] \<and>
   map (\<lambda>(m, ip, e). (m, ip, Inr e :: error + pyfloat))
       (leases (snd (allocate_all example_clock example_pool [''aa'', ''bb'', ''cc'', ''dd'']))) =
     [(''aa'', 0x0A00000A, Inr (Finite 60)), (''bb'', 0x0A00000B, Inr (Finite 62)),
      (''cc'', 0x0A00000C, Inr (Finite 65))] \<and>
   ticks (snd (allocate_all example_clock example_pool [''aa'', ''bb'', ''cc'', ''dd''])) = 13"
proof -
  have N: "pool_size example_pool = 3" by (simp add: pool_size_def example_pool_def)
  have l: "leases example_pool = []" and tk: "ticks example_pool = 0"
    and lt: "lease_time example_pool = 60"
    by (simp_all add: example_pool_def)
  have d: "distinct [''aa'', ''bb'', ''cc'', ''dd'']" by simp
  have n: "length [''aa'', ''bb'', ''cc'', ''dd''] = Suc (pool_size example_pool)"
    by (simp add: N)
  have cs: "call_start example_pool 0 = 0" "call_start example_pool (Suc 0) = 2"
    "call_start example_pool 2 = 5" "call_start example_pool 3 = 9"
    by (simp_all add: call_start_def tk eval_nat_numeral)
  have T: "call_start example_pool (pool_size example_pool) + pool_size example_pool + 1 = 13"
    by (simp add: N cs)
  have pa: "pool_address example_pool 0 = 0x0A00000A"
    "pool_address example_pool (Suc 0) = 0x0A00000B"
    "pool_address example_pool 2 = 0x0A00000C"
    by (simp_all add: pool_address_def example_pool_def)
  have sums: "float_add_int (example_clock i) 60 = Inr (Finite (of_nat i + 60))" if "i < 13" for i
    using float_add_int_small [of "int i" 60] that by (simp add: example_clock_def)
  have live: "float_gt (Finite (of_nat i + 60)) (example_clock j)" if "j < 13" for i j :: nat
  proof -
    from that have "(of_nat j :: rat) < of_nat 13" by (simp only: of_nat_less_iff)
    moreover have "(0 :: rat) \<le> of_nat i" by simp
    ultimately show ?thesis by (simp add: example_clock_def)
  qed
  have w: "\<forall>i j. ticks example_pool \<le> i \<and>
               i < call_start example_pool (pool_size example_pool) + pool_size example_pool + 1 \<and>
               ticks example_pool \<le> j \<and>
               j < call_start example_pool (pool_size example_pool) + pool_size example_pool + 1 \<longrightarrow>
           (\<exists>e. float_add_int (example_clock i) (lease_time example_pool) = Inr e \<and>
                float_gt e (example_clock j))"
    unfolding T lt using sums live by blast
  have w': "list_all (\<lambda>i. list_all (\<lambda>j.
       case float_add_int (example_clock i) (lease_time example_pool) of
         Inl err \<Rightarrow> False
       | Inr e \<Rightarrow> float_gt e (example_clock j)) [0..<13]) [0..<13]"
    unfolding lt list_all_iff using sums live by simp
  have up: "[0..<3] = [0, Suc 0, 2]" by (simp add: upt_rec)
  have s3: "float_add_int (example_clock 0) 60 = Inr (Finite 60)"
    "float_add_int (example_clock 2) 60 = Inr (Finite 62)"
    "float_add_int (example_clock 5) 60 = Inr (Finite 65)"
    using sums [of 0] sums [of 2] sums [of 5] by simp_all
  from pool_exhaustion [OF l d n w] l d n N T w' show ?thesis
    unfolding N lt up by (simp add: cs pa s3)
qed

section \<open>The dispatcher and invalid requested addresses\<close>

text \<open>
  A string on which \<^verbatim>\<open>ip_address\<close> raises \<^verbatim>\<open>ValueError\<close> is handled like no request at
  all; a string that parses to an IPv6 address is not, for a hardware address without an active
  lease.
\<close>

lemma allocate_fresh_unparsable:
  "allocate_fresh clock mac now Unparsable s = allocate_fresh clock mac now NoRequest s"
  by (simp add: allocate_fresh_def)

lemma allocate_unparsable: "allocate clock s mac Unparsable = allocate clock s mac NoRequest"
  unfolding allocate_def allocate_fresh_unparsable by (rule refl)

lemma allocate_ipv6_raises:
  "map_of (leases s) mac = None \<Longrightarrow>
   allocate clock s mac (Parsed (IPv6Address a)) = (Inl TypeError, s\<lparr>ticks := Suc (ticks s)\<rparr>)"
  by (simp add: allocate_def allocate_fresh_def time_time_def)

text \<open>
  C7: a REQUEST datagram whose option 50 holds three bytes is not treated as a request without
  an address. \<^verbatim>\<open>socket.inet_ntoa\<close> raises \<^verbatim>\<open>OSError\<close> in the loop of \<^verbatim>\<open>main\<close>, outside any
  \<^verbatim>\<open>try\<close>, before \<^verbatim>\<open>allocate\<close> is called; and inside \<^verbatim>\<open>allocate\<close> a requested IPv6
  address raises \<^verbatim>\<open>TypeError\<close> past the \<^verbatim>\<open>except ValueError\<close> clause.
\<close>

theorem malformed_option50_raises:
  "handle_datagram clock cfg s short_option50_datagram = (Inl OSError, s) \<and>
   allocate clock example_pool ''aa'' (Parsed (IPv6Address 1)) =
     (Inl TypeError, example_pool\<lparr>ticks := 1\<rparr>)"
proof
  have opts: "parse_options [53, 1, 3, 50, 3, 10, 0, 0, 255] = [53 \<mapsto> [3], 50 \<mapsto> [10, 0, 0]]"
    by (simp add: parse_options_def)
  have "drop 240 short_option50_datagram = [53, 1, 3, 50, 3, 10, 0, 0, 255]"
    "take 4 (drop 236 short_option50_datagram) = MAGIC_COOKIE"
    "length short_option50_datagram = 249"
    by (simp_all add: short_option50_datagram_def MAGIC_COOKIE_def)
  then show "handle_datagram clock cfg s short_option50_datagram = (Inl OSError, s)"
    by (simp add: handle_datagram_def opts requested_of_option_def DHCPDISCOVER_def
        DHCPREQUEST_def Let_def)
  show "allocate clock example_pool ''aa'' (Parsed (IPv6Address 1)) =
     (Inl TypeError, example_pool\<lparr>ticks := 1\<rparr>)"
    by (simp add: allocate_ipv6_raises example_pool_def)
qed

end
